theory Spec2Isabelle
  imports Complex_Main "HOL-Library.Sublist" "HOL-Library.Multiset" "HOL-Library.Product_Lexorder"
begin

section \<open>Text helpers of the ranking service\<close>

text \<open>
  The service (\<^verbatim>\<open>backend_nsga_service.py\<close>) reads every categorical attribute of a row with
  \<^verbatim>\<open>str(s or '').strip().lower()\<close> and then tests substrings with Python's \<^verbatim>\<open>in\<close>.
  A text is a \<^typ>\<open>string\<close>; an attribute that is absent from the row, or \<^verbatim>\<open>None\<close>, is
  \<^term>\<open>None\<close>. Only the ASCII part of \<^verbatim>\<open>strip\<close> and \<^verbatim>\<open>lower\<close> is modelled.
\<close>

definition is_space :: "char \<Rightarrow> bool" where
  "is_space c = (let k = (of_char c :: nat) in k = 32 \<or> (9 \<le> k \<and> k \<le> 13) \<or> (28 \<le> k \<and> k \<le> 31))"

definition strip :: "string \<Rightarrow> string" where
  "strip s = rev (dropWhile is_space (rev (dropWhile is_space s)))"

definition lower_char :: "char \<Rightarrow> char" where
  "lower_char c =
    (case map_of (zip ''ABCDEFGHIJKLMNOPQRSTUVWXYZ'' ''abcdefghijklmnopqrstuvwxyz'') c of
       None \<Rightarrow> c | Some d \<Rightarrow> d)"

definition lower :: "string \<Rightarrow> string" where
  "lower s = map lower_char s"

text \<open>\<^verbatim>\<open>sub in s\<close> on Python strings: \<open>sub\<close> occurs in \<open>s\<close> as a contiguous block.\<close>

fun contains :: "string \<Rightarrow> string \<Rightarrow> bool" where
  "contains sub [] = (sub = [])"
| "contains sub (c # cs) = (prefix sub (c # cs) \<or> contains sub cs)"

definition norm_text :: "string option \<Rightarrow> string" where
  "norm_text s = lower (strip (case s of None \<Rightarrow> [] | Some t \<Rightarrow> t))"

section \<open>Rows and the objective mapper\<close>

text \<open>
  What \<^verbatim>\<open>float(r.get("mileage") or 0.0)\<close> can meet in a row of the JSON payload, by what Python
  does with it:
  \<^item> \<open>Absent\<close>: the key is missing or its value is \<^verbatim>\<open>None\<close> (falsy, so \<^verbatim>\<open>0.0\<close> is taken);
  \<^item> \<open>Num x\<close>: a number that \<^verbatim>\<open>float\<close> converts, with its value (\<^verbatim>\<open>0\<close>, \<^verbatim>\<open>0.0\<close> and
    \<^verbatim>\<open>False\<close> are falsy and give \<^verbatim>\<open>0.0\<close> as well; \<^verbatim>\<open>True\<close> gives \<^verbatim>\<open>1.0\<close>);
  \<^item> \<open>NumText x\<close>: a non-empty text that \<^verbatim>\<open>float\<close> accepts, such as \<^verbatim>\<open>"121000"\<close>, with its value;
  \<^item> \<open>EmptyText\<close>: the text \<^verbatim>\<open>""\<close> (falsy);
  \<^item> \<open>BadText\<close>: a non-empty text that \<^verbatim>\<open>float\<close> rejects with \<^verbatim>\<open>ValueError\<close>, such as
    \<^verbatim>\<open>"abc"\<close> or \<^verbatim>\<open>"12 km"\<close>;
  \<^item> \<open>EmptyContainer\<close>: the list \<^verbatim>\<open>[]\<close> or the object \<^verbatim>\<open>{}\<close> (falsy);
  \<^item> \<open>Container\<close>: a non-empty list or object, which \<^verbatim>\<open>float\<close> rejects with \<^verbatim>\<open>TypeError\<close>;
  \<^item> \<open>HugeInt\<close>: an integer beyond the range of a float, such as \<^verbatim>\<open>10**400\<close>, which
    \<^verbatim>\<open>float\<close> rejects with \<^verbatim>\<open>OverflowError\<close>.

  Floats are reals here: \<^verbatim>\<open>NaN\<close> and the infinities, which \<^verbatim>\<open>float\<close> accepts as literals and
  as texts without raising, have no value in the model.
\<close>

datatype num_field =
  Absent | Num real | NumText real | EmptyText | BadText | EmptyContainer | Container | HugeInt

datatype error = ValueError | TypeError | OverflowError

fun float_or_zero :: "num_field \<Rightarrow> error + real" where
  "float_or_zero Absent = Inr 0"
| "float_or_zero (Num x) = Inr x"
| "float_or_zero (NumText x) = Inr x"
| "float_or_zero EmptyText = Inr 0"
| "float_or_zero BadText = Inl ValueError"
| "float_or_zero EmptyContainer = Inr 0"
| "float_or_zero Container = Inl TypeError"
| "float_or_zero HugeInt = Inl OverflowError"

record row =
  train_id :: "string option"
  fitness :: "string option"
  job_cards :: "string option"
  branding :: "string option"
  mileage :: num_field
  cleaning :: "string option"
  stabling :: "string option"
  updated_at :: "string option"

record statuses =
  s_fitness :: string
  s_job_cards :: string
  s_branding :: string
  s_cleaning :: string
  s_stabling :: string

definition normalize_statuses :: "row \<Rightarrow> statuses" where
  "normalize_statuses r =
    (let f = norm_text (fitness r);
         fit = (if contains ''valid'' f then ''Valid''
                else if list_ex (\<lambda>k. contains k f) [''expired'', ''invalid'', ''revoked''] then ''Expired''
                else ''Conditional'');
         j = norm_text (job_cards r);
         jobs = (if list_ex (\<lambda>k. contains k j) [''critical'', ''major'', ''open''] then ''Open''
                 else if list_ex (\<lambda>k. contains k j) [''minor'', ''pending''] then ''Minor''
                 else ''Closed'');
         b = norm_text (branding r);
         brand = (if b = ''high'' then ''High'' else if b = ''medium'' then ''Medium'' else ''Low'');
         c = norm_text (cleaning r);
         clean = (if list_ex (\<lambda>k. contains k c) [''complete'', ''clean''] then ''Complete''
                  else if list_ex (\<lambda>k. contains k c) [''partial'', ''inprogress''] then ''Partial''
                  else ''Pending'');
         stab = (case stabling r of None \<Rightarrow> [] | Some t \<Rightarrow> t)
     in \<lparr>s_fitness = fit, s_job_cards = jobs, s_branding = brand, s_cleaning = clean, s_stabling = stab\<rparr>)"

record extras =
  e_fitness :: string
  e_job_card_status :: string
  e_branding_priority :: string
  e_mileage :: real
  e_cleaning_status :: string
  e_stabling_position :: string
  e_updated_at :: "string option"

record alerts =
  fitness_invalid :: bool
  job_open :: bool
  cleaning_pending :: bool
  cleaning_partial :: bool
  no_stabling :: bool

text \<open>
  \<^verbatim>\<open>map_row_to_objectives\<close>. The objective vector is the list
  \<open>[fitness_invalid, jobs, branding, mileage_dev, cleaning_need, geometry]\<close>; the texts that are
  matched are those of the normalised statuses, not those of the row. The one call that can
  raise is \<^verbatim>\<open>float\<close> on the mileage.
\<close>

definition map_row_to_objectives ::
    "row \<Rightarrow> real \<Rightarrow> error + (real list \<times> extras \<times> real \<times> alerts)" where
  "map_row_to_objectives r fleet_avg_mileage =
    (let norm = normalize_statuses r;
         ftxt = norm_text (Some (s_fitness norm));
         fit_inv = (if contains ''invalid'' ftxt \<or> contains ''expired'' ftxt \<or> contains ''revoked'' ftxt
                    then 1 else 0 :: real);
         jtxt = norm_text (Some (s_job_cards norm));
         jobs = (if list_ex (\<lambda>k. contains k jtxt) [''critical'', ''major'', ''open''] then 1
                 else if list_ex (\<lambda>k. contains k jtxt) [''minor'', ''pending''] then 1 / 2
                 else 0 :: real);
         btxt = norm_text (Some (s_branding norm));
         brand = (if btxt = ''high'' then 1 else if btxt = ''medium'' then 1 / 2 else 0 :: real)
     in case float_or_zero (mileage r) of
          Inl e \<Rightarrow> Inl e
        | Inr mil \<Rightarrow>
           (let mileage_dev = \<bar>mil - fleet_avg_mileage\<bar>;
                ctxt = norm_text (Some (s_cleaning norm));
                cleaning_need = (if contains ''complete'' ctxt \<or> contains ''clean'' ctxt then 0
                                 else if contains ''partial'' ctxt then 1 / 2 else 1 :: real);
                stab = strip (s_stabling norm);
                geometry = (if stab \<noteq> [] then 0 else 1 / 2 :: real);
                penalty = (if fit_inv > 0 then 10 else 0 :: real);
                objectives = [fit_inv, jobs, brand, mileage_dev, cleaning_need, geometry];
                ex = \<lparr>e_fitness = s_fitness norm, e_job_card_status = s_job_cards norm,
                      e_branding_priority = s_branding norm, e_mileage = mil,
                      e_cleaning_status = s_cleaning norm, e_stabling_position = s_stabling norm,
                      e_updated_at = updated_at r\<rparr>;
                al = \<lparr>fitness_invalid = (fit_inv \<noteq> 0),
                      job_open = (contains jtxt ''open''
                                  \<or> list_ex (\<lambda>k. contains k jtxt) [''major'', ''critical'']),
                      cleaning_pending = contains ''pending'' ctxt,
                      cleaning_partial = contains ''partial'' ctxt,
                      no_stabling = (stab = [])\<rparr>
            in Inr (objectives, ex, penalty, al)))"

text \<open>The row used below: every attribute present and in its best state.\<close>

definition good_row :: row where
  "good_row = \<lparr>train_id = Some ''Train05'', fitness = Some ''valid'', job_cards = Some ''closed'',
     branding = Some ''low'', mileage = Num 121000, cleaning = Some ''complete'',
     stabling = Some ''bay2'', updated_at = Some ''2025-09-19T13:57:53Z''\<rparr>"

section \<open>Column normalisation and weights\<close>

text \<open>
  Floats are modelled as \<^typ>\<open>real\<close>: the claims are about order, equality and the
  structure of the result, never about rounding. \<^verbatim>\<open>_norm\<close> is \<open>norm_vals\<close>.
\<close>

definition norm_vals :: "real list \<Rightarrow> real list" where
  "norm_vals vals =
    (if vals = [] then vals
     else let vmin = Min (set vals); vmax = Max (set vals)
          in if vmax - vmin = 0 then map (\<lambda>_. 0) vals
             else map (\<lambda>v. (v - vmin) / (vmax - vmin)) vals)"

text \<open>\<^verbatim>\<open>list(zip(*objs)) if objs else []\<close>: the columns, as far as the shortest row goes.\<close>

definition zip_star :: "real list list \<Rightarrow> real list list" where
  "zip_star objs =
    (if objs = [] then []
     else map (\<lambda>k. map (\<lambda>v. v ! k) objs) [0..<Min (set (map length objs))])"

definition weight_or :: "(string \<rightharpoonup> real) \<Rightarrow> string \<Rightarrow> real \<Rightarrow> real" where
  "weight_or weights key dflt = (case weights key of None \<Rightarrow> dflt | Some w \<Rightarrow> w)"

text \<open>
  \<^verbatim>\<open>apply_weights\<close>. It reads the columns \<open>0..5\<close> of every row; in the service every row is
  the six-entry list of \<open>map_row_to_objectives\<close>.
\<close>

definition apply_weights :: "real list list \<Rightarrow> (string \<rightharpoonup> real) \<Rightarrow> real list list" where
  "apply_weights objs weights =
    (let w_f = weight_or weights ''fitness'' 5;
         w_j = weight_or weights ''jobs'' 2;
         w_b = weight_or weights ''branding'' (3 / 2);
         w_m = weight_or weights ''mileage'' 1;
         w_c = weight_or weights ''cleaning'' (5 / 4);
         w_s = weight_or weights ''stabling'' (3 / 4);
         cols = zip_star objs;
         cols_norm = map norm_vals cols
     in map (\<lambda>i. let n = map (\<lambda>k. cols_norm ! k ! i) [0..<length cols_norm]
                  in [n ! 0 * w_f, n ! 1 * w_j, n ! 2 * w_b, n ! 3 * w_m, n ! 4 * w_c, n ! 5 * w_s])
            [0..<length objs])"

section \<open>Dominance and the non-dominated sort\<close>

definition dominates :: "real list \<Rightarrow> real list \<Rightarrow> bool" where
  "dominates a b =
    (let not_worse = list_all (\<lambda>(x, y). x \<le> y) (zip a b);
         strictly_better = list_ex (\<lambda>(x, y). x < y) (zip a b)
     in not_worse \<and> strictly_better)"

text \<open>
  The first double loop of \<^verbatim>\<open>_non_dominated_sort\<close>: the state is the pair of the lists
  \<open>S\<close> and \<open>n_dom\<close>, and \<open>dom_step\<close> is the body for one pair \<open>(p, q)\<close>.
\<close>

definition dom_step ::
    "real list list \<Rightarrow> nat \<Rightarrow> nat \<Rightarrow> nat list list \<times> int list \<Rightarrow> nat list list \<times> int list" where
  "dom_step pop p q st =
    (case st of (S, n_dom) \<Rightarrow>
       if p = q then (S, n_dom)
       else if dominates (pop ! p) (pop ! q) then (S[p := S ! p @ [q]], n_dom)
       else if dominates (pop ! q) (pop ! p) then (S, n_dom[p := n_dom ! p + 1])
       else (S, n_dom))"

definition dom_counts :: "real list list \<Rightarrow> nat list list \<times> int list" where
  "dom_counts pop =
    (let n = length pop
     in fold (\<lambda>p. fold (dom_step pop p) [0..<n]) [0..<n] (replicate n [], replicate n 0))"

text \<open>
  The body of the peeling loop: \<open>peel_q\<close> is \<^verbatim>\<open>n_dom[q] -= 1; if n_dom[q] == 0: next_front.append(q)\<close>,
  and \<open>peel_front\<close> runs it for every \<open>q\<close> of \<open>S[p]\<close>, for every \<open>p\<close> of the current front.
\<close>

definition peel_q :: "nat \<Rightarrow> int list \<times> nat list \<Rightarrow> int list \<times> nat list" where
  "peel_q q st =
    (case st of (n_dom, next_front) \<Rightarrow>
       let n_dom' = n_dom[q := n_dom ! q - 1]
       in (n_dom', if n_dom' ! q = 0 then next_front @ [q] else next_front))"

definition peel_front :: "nat list list \<Rightarrow> nat list \<Rightarrow> int list \<Rightarrow> int list \<times> nat list" where
  "peel_front S current n_dom = fold (\<lambda>p. fold peel_q (S ! p)) current (n_dom, [])"

text \<open>
  The \<^verbatim>\<open>while current:\<close> loop. It is a partial function: \<^term>\<open>None\<close> stands for a loop
  that does not return.
\<close>

partial_function (option) peel_loop ::
    "nat list list \<Rightarrow> int list \<Rightarrow> nat list \<Rightarrow> nat list list \<Rightarrow> nat list list option" where
  "peel_loop S n_dom current fronts =
    (if current = [] then Some fronts
     else case peel_front S current n_dom of
            (n_dom', next_front) \<Rightarrow>
              peel_loop S n_dom' next_front
                (if next_front \<noteq> [] then fronts @ [next_front] else fronts))"

declare peel_loop.simps [code]

definition non_dominated_sort :: "real list list \<Rightarrow> nat list list option" where
  "non_dominated_sort pop =
    (let n = length pop in
     case dom_counts pop of
       (S, n_dom) \<Rightarrow>
         let current = filter (\<lambda>i. n_dom ! i = 0) [0..<n]
         in peel_loop S n_dom current (if current \<noteq> [] then [current] else []))"

section \<open>Crowding distance\<close>

text \<open>
  A crowding distance is a float or \<^verbatim>\<open>math.inf\<close>, and the sort key of the final order is its
  negation: \<open>pyfloat\<close> is a real number or one of the two infinities, ordered as floats are.
\<close>

datatype pyfloat = NegInf | Fin real | PosInf

instantiation pyfloat :: linorder
begin

fun less_eq_pyfloat :: "pyfloat \<Rightarrow> pyfloat \<Rightarrow> bool" where
  "less_eq_pyfloat NegInf y = True"
| "less_eq_pyfloat (Fin a) NegInf = False"
| "less_eq_pyfloat (Fin a) (Fin b) = (a \<le> b)"
| "less_eq_pyfloat (Fin a) PosInf = True"
| "less_eq_pyfloat PosInf NegInf = False"
| "less_eq_pyfloat PosInf (Fin b) = False"
| "less_eq_pyfloat PosInf PosInf = True"

definition less_pyfloat :: "pyfloat \<Rightarrow> pyfloat \<Rightarrow> bool" where
  "less_pyfloat x y = (x \<le> y \<and> \<not> y \<le> x)"

instance
proof
  fix x y z :: pyfloat
  show "(x < y) = (x \<le> y \<and> \<not> y \<le> x)" by (simp add: less_pyfloat_def)
  show "x \<le> x" by (cases x) simp_all
  show "x \<le> y \<Longrightarrow> y \<le> z \<Longrightarrow> x \<le> z" by (cases x; cases y; cases z) simp_all
  show "x \<le> y \<Longrightarrow> y \<le> x \<Longrightarrow> x = y" by (cases x; cases y) simp_all
  show "x \<le> y \<or> y \<le> x" by (cases x; cases y) auto
qed

end

text \<open>\<^verbatim>\<open>d += x\<close> for a finite \<open>x\<close>, and unary minus.\<close>

fun fl_add :: "pyfloat \<Rightarrow> real \<Rightarrow> pyfloat" where
  "fl_add NegInf x = NegInf"
| "fl_add (Fin a) x = Fin (a + x)"
| "fl_add PosInf x = PosInf"

fun fl_neg :: "pyfloat \<Rightarrow> pyfloat" where
  "fl_neg NegInf = PosInf"
| "fl_neg (Fin a) = Fin (- a)"
| "fl_neg PosInf = NegInf"

text \<open>
  The body of the loop over the objectives in \<^verbatim>\<open>_crowding_distance\<close>, for objective \<open>k\<close>.
  \<^verbatim>\<open>dist\<close> is a dictionary; \<^verbatim>\<open>sorted\<close> is stable, as \<^const>\<open>sort_key\<close> is. The front is
  not empty here, so \<^verbatim>\<open>sorted_idx[0]\<close> and \<^verbatim>\<open>sorted_idx[-1]\<close> are \<^const>\<open>hd\<close> and \<^const>\<open>last\<close>.
\<close>

definition crowding_dim ::
    "nat list \<Rightarrow> real list list \<Rightarrow> nat \<Rightarrow> (nat \<rightharpoonup> pyfloat) \<Rightarrow> (nat \<rightharpoonup> pyfloat)" where
  "crowding_dim front pop k dist0 =
    (let sorted_idx = sort_key (\<lambda>i. pop ! i ! k) front;
         min_v = pop ! (hd sorted_idx) ! k;
         max_v = pop ! (last sorted_idx) ! k;
         span = max_v - min_v;
         dist1 = dist0(hd sorted_idx \<mapsto> PosInf);
         dist2 = dist1(last sorted_idx \<mapsto> PosInf)
     in if span = 0 then dist2
        else fold (\<lambda>j d.
                let prev_v = pop ! (sorted_idx ! (j - 1)) ! k;
                    next_v = pop ! (sorted_idx ! (j + 1)) ! k
                in d(sorted_idx ! j := map_option (\<lambda>v. fl_add v ((next_v - prev_v) / span))
                                         (d (sorted_idx ! j))))
               [1..<length sorted_idx - 1] dist2)"

definition crowding_distance :: "nat list \<Rightarrow> real list list \<Rightarrow> (nat \<rightharpoonup> pyfloat)" where
  "crowding_distance front pop =
    (if front = [] then Map.empty
     else let m = length (pop ! 0);
              dist0 = (\<lambda>i. if i \<in> set front then Some (Fin 0) else None)
          in fold (crowding_dim front pop) [0..<m] dist0)"

section \<open>The ranking\<close>

text \<open>
  \<^verbatim>\<open>nsga_order\<close>, on the built-in path (\<^verbatim>\<open>_HAVE_PYMOO\<close> false; the other path hands the
  sort to a library that is not part of the repository). \<open>nsga_order_fronts\<close> is the part that
  builds \<^verbatim>\<open>fronts\<close>: the feasible candidates are sorted on their own, then the infeasible ones.
\<close>

definition nsga_order_fronts :: "real list list \<Rightarrow> real list \<Rightarrow> nat list list option" where
  "nsga_order_fronts weighted_objs constraint_penalties =
    (let feas_idx = filter (\<lambda>i. constraint_penalties ! i \<le> 0) [0..<length constraint_penalties];
         infeas_idx = filter (\<lambda>i. constraint_penalties ! i > 0) [0..<length constraint_penalties]
     in case (if feas_idx \<noteq> []
              then map_option (map (map (\<lambda>j. feas_idx ! j)))
                     (non_dominated_sort (map (\<lambda>i. weighted_objs ! i) feas_idx))
              else Some []) of
          None \<Rightarrow> None
        | Some fronts \<Rightarrow>
            if infeas_idx \<noteq> []
            then case non_dominated_sort (map (\<lambda>i. weighted_objs ! i) infeas_idx) of
                   None \<Rightarrow> None
                 | Some inf_fronts \<Rightarrow> Some (fronts @ map (map (\<lambda>j. infeas_idx ! j)) inf_fronts)
            else Some fronts)"

text \<open>
  The loop \<^verbatim>\<open>for f in fronts\<close> that fills \<^verbatim>\<open>order\<close> with the triples
  \<open>(index, - crowding, rank)\<close>; \<^verbatim>\<open>d.get(i, 0.0)\<close> reads the dictionary.
\<close>

fun order_loop :: "real list list \<Rightarrow> nat \<Rightarrow> nat list list \<Rightarrow> (nat \<times> pyfloat \<times> nat) list" where
  "order_loop weighted_objs rank_num [] = []"
| "order_loop weighted_objs rank_num (f # fs) =
    (let d = crowding_distance f weighted_objs
     in map (\<lambda>i. (i, fl_neg (case d i of None \<Rightarrow> Fin 0 | Some v \<Rightarrow> v), rank_num)) f)
    @ order_loop weighted_objs (rank_num + 1) fs"

definition nsga_order :: "real list list \<Rightarrow> real list \<Rightarrow> (nat \<times> pyfloat \<times> nat) list option" where
  "nsga_order weighted_objs constraint_penalties =
    (case nsga_order_fronts weighted_objs constraint_penalties of
       None \<Rightarrow> None
     | Some fronts \<Rightarrow>
         Some (sort_key (\<lambda>t. (snd (snd t), fst (snd t))) (order_loop weighted_objs 1 fronts)))"

section \<open>The endpoint\<close>

record result_item =
  ri_train_id :: "string option"
  pareto_rank :: nat
  fitness_certificate_status :: string
  job_card_status :: string
  branding_priority :: string
  ri_mileage :: real
  cleaning_status :: string
  stabling_position :: string
  ri_updated_at :: "string option"
  ri_alerts :: alerts

text \<open>A list comprehension over calls that may raise stops at the first one that does.\<close>

fun collect :: "('e + 'a) list \<Rightarrow> 'e + 'a list" where
  "collect [] = Inr []"
| "collect (x # xs) =
    (case x of
       Inl e \<Rightarrow> Inl e
     | Inr v \<Rightarrow> (case collect xs of Inl e \<Rightarrow> Inl e | Inr vs \<Rightarrow> Inr (v # vs)))"

text \<open>\<^verbatim>\<open>mileages = [float(r.get("mileage") or 0.0) for r in rows]\<close>\<close>

definition fleet_mileages :: "row list \<Rightarrow> error + real list" where
  "fleet_mileages rows = collect (map (\<lambda>r. float_or_zero (mileage r)) rows)"

text \<open>
  The local variable \<^verbatim>\<open>category\<close> of the loop that builds the response
  (``Induction category with hard constraint'').
\<close>

definition induction_category :: "alerts \<Rightarrow> string" where
  "induction_category al =
    (if fitness_invalid al then ''Inspection Bay Hold''
     else if cleaning_pending al \<or> cleaning_partial al then ''Cleaning/Detailing''
     else ''Revenue Service'')"

text \<open>\<^verbatim>\<open>fleet_avg = sum(mileages) / (len(mileages) or 1)\<close>\<close>

definition fleet_average :: "real list \<Rightarrow> real" where
  "fleet_average mileages = sum_list mileages / real (if length mileages = 0 then 1 else length mileages)"

text \<open>
  The body of the loop that builds \<^verbatim>\<open>results\<close>, for one entry \<open>(i, neg_crowd, rank)\<close> of
  \<^verbatim>\<open>order\<close>. \<^verbatim>\<open>category\<close> is computed for every result and stored nowhere in
  \<^verbatim>\<open>result_item\<close>; the model returns it beside the item. The conflict and explanation texts,
  which are built from the item and feed nothing back, are left out.
\<close>

definition result_entry ::
    "row list \<Rightarrow> extras list \<Rightarrow> alerts list \<Rightarrow> nat \<times> pyfloat \<times> nat \<Rightarrow> result_item \<times> string" where
  "result_entry rows extras_list alerts_list t =
    (case t of (i, neg_crowd, rank) \<Rightarrow>
       (let base = rows ! i; ex = extras_list ! i
        in (\<lparr>ri_train_id = train_id base, pareto_rank = rank,
              fitness_certificate_status = e_fitness ex,
              job_card_status = e_job_card_status ex,
              branding_priority = e_branding_priority ex,
              ri_mileage = e_mileage ex,
              cleaning_status = e_cleaning_status ex,
              stabling_position = e_stabling_position ex,
              ri_updated_at = e_updated_at ex,
              ri_alerts = alerts_list ! i\<rparr>,
            induction_category (alerts_list ! i))))"

text \<open>
  \<^verbatim>\<open>rank_endpoint\<close>, from the rows and weights of the payload to the list \<^verbatim>\<open>results\<close>. The
  display scores of \<^verbatim>\<open>compute_scores_heuristic\<close> are computed and never used; they are left
  out. The result is \<^term>\<open>None\<close> if the sort does not return, \<open>Some (Inl e)\<close> if an
  exception \<open>e\<close> escapes, \<open>Some (Inr results)\<close> otherwise.
\<close>

definition rank_endpoint ::
    "row list \<Rightarrow> (string \<rightharpoonup> real) \<Rightarrow> (error + (result_item \<times> string) list) option" where
  "rank_endpoint rows weights =
    (case fleet_mileages rows of
       Inl e \<Rightarrow> Some (Inl e)
     | Inr mileages \<Rightarrow>
        (case collect (map (\<lambda>r. map_row_to_objectives r (fleet_average mileages)) rows) of
           Inl e \<Rightarrow> Some (Inl e)
         | Inr mapped \<Rightarrow>
            (let raw_objs = map fst mapped;
                 extras_list = map (\<lambda>t. fst (snd t)) mapped;
                 penalties = map (\<lambda>t. fst (snd (snd t))) mapped;
                 alerts_list = map (\<lambda>t. snd (snd (snd t))) mapped;
                 weighted = apply_weights raw_objs weights
             in case nsga_order weighted penalties of
                  None \<Rightarrow> None
                | Some order \<Rightarrow> Some (Inr (map (result_entry rows extras_list alerts_list) order)))))"

section \<open>The CSV reader of the command line\<close>

text \<open>
  \<^verbatim>\<open>read_csv\<close> of \<^verbatim>\<open>nsga_train_ranking.py\<close>. A row of \<^verbatim>\<open>csv.DictReader\<close> maps the names of the
  header to texts, or to \<^verbatim>\<open>None\<close> where the line is short. \<^verbatim>\<open>row[key]\<close> raises
  \<^verbatim>\<open>KeyError\<close> for a name that is not in the header, which is turned into the
  \<^verbatim>\<open>ValueError\<close> ``Missing required CSV column'' (\<open>MissingColumn\<close>); \<^verbatim>\<open>int\<close> and \<^verbatim>\<open>float\<close>
  raise \<^verbatim>\<open>ValueError\<close> on a text they reject and \<^verbatim>\<open>TypeError\<close> on \<^verbatim>\<open>None\<close>, and nothing
  catches these. Python's \<^verbatim>\<open>int\<close> and \<^verbatim>\<open>float\<close> on texts are the parameters \<open>py_int\<close> and
  \<open>py_float\<close>. The fields are read in the order of the source, so the first failure is the
  one that is raised.
\<close>

record train_input =
  ti_train_id :: string
  ti_fitness_valid :: bool
  ti_open_work_orders :: int
  ti_branding_hours_remaining :: real
  ti_mileage_km :: real
  ti_mileage_target_km :: real
  ti_cleaning_need_score :: real
  ti_cleaning_slot_available :: bool
  ti_stabling_move_minutes :: real

datatype csv_error = MissingColumn string | NumberValueError | NumberTypeError

type_synonym csv_row = "string \<rightharpoonup> string option"

definition then_sum :: "'e + 'a \<Rightarrow> ('a \<Rightarrow> 'e + 'b) \<Rightarrow> 'e + 'b" where
  "then_sum x f = (case x of Inl e \<Rightarrow> Inl e | Inr v \<Rightarrow> f v)"

definition column :: "csv_row \<Rightarrow> string \<Rightarrow> csv_error + string option" where
  "column r key = (case r key of None \<Rightarrow> Inl (MissingColumn key) | Some v \<Rightarrow> Inr v)"

definition py_str :: "string option \<Rightarrow> string" where
  "py_str v = (case v of None \<Rightarrow> ''None'' | Some s \<Rightarrow> s)"

definition number :: "(string \<Rightarrow> 'n option) \<Rightarrow> string option \<Rightarrow> csv_error + 'n" where
  "number parse v =
    (case v of
       None \<Rightarrow> Inl NumberTypeError
     | Some s \<Rightarrow> (case parse s of None \<Rightarrow> Inl NumberValueError | Some n \<Rightarrow> Inr n))"

definition truthy :: "string option \<Rightarrow> bool" where
  "truthy v = (lower (strip (py_str v)) \<in> set [''1'', ''true'', ''yes'', ''y''])"

definition read_row ::
    "(string \<Rightarrow> int option) \<Rightarrow> (string \<Rightarrow> real option) \<Rightarrow> csv_row \<Rightarrow> csv_error + train_input" where
  "read_row py_int py_float r =
    then_sum (column r ''train_id'') (\<lambda>tid.
    then_sum (column r ''fitness_valid'') (\<lambda>fv.
    then_sum (then_sum (column r ''open_work_orders'') (number py_int)) (\<lambda>owo.
    then_sum (then_sum (column r ''branding_hours_remaining'') (number py_float)) (\<lambda>bhr.
    then_sum (then_sum (column r ''mileage_km'') (number py_float)) (\<lambda>mk.
    then_sum (then_sum (column r ''mileage_target_km'') (number py_float)) (\<lambda>mt.
    then_sum (then_sum (column r ''cleaning_need_score'') (number py_float)) (\<lambda>cns.
    then_sum (column r ''cleaning_slot_available'') (\<lambda>csa.
    then_sum (then_sum (column r ''stabling_move_minutes'') (number py_float)) (\<lambda>smm.
      Inr \<lparr>ti_train_id = strip (py_str tid), ti_fitness_valid = truthy fv,
           ti_open_work_orders = owo, ti_branding_hours_remaining = bhr,
           ti_mileage_km = mk, ti_mileage_target_km = mt, ti_cleaning_need_score = cns,
           ti_cleaning_slot_available = truthy csa, ti_stabling_move_minutes = smm\<rparr>)))))))))"

definition read_csv ::
    "(string \<Rightarrow> int option) \<Rightarrow> (string \<Rightarrow> real option) \<Rightarrow> csv_row list \<Rightarrow> csv_error + train_input list" where
  "read_csv py_int py_float rows = collect (map (read_row py_int py_float) rows)"


section \<open>The classifiers\<close>

text \<open>
  \<^verbatim>\<open>classify_row\<close> of the service, which nothing calls. A raw row maps keys to texts or to
  \<^verbatim>\<open>None\<close>; \<^verbatim>\<open>str(raw.get(key, ""))\<close> is the empty text for a missing key, \<^verbatim>\<open>"None"\<close> for a
  key whose value is \<^verbatim>\<open>None\<close>, and the text itself otherwise.
\<close>

type_synonym raw_row = "string \<rightharpoonup> string option"

definition str_get :: "raw_row \<Rightarrow> string \<Rightarrow> string" where
  "str_get raw key = (case raw key of None \<Rightarrow> [] | Some v \<Rightarrow> py_str v)"

definition classify_row :: "raw_row \<Rightarrow> string" where
  "classify_row raw =
    (let f = lower (str_get raw ''fitness'');
         j = lower (str_get raw ''job_cards'');
         c = lower (str_get raw ''cleaning'');
         invalid = (contains ''invalid'' f \<or> contains ''expired'' f \<or> contains ''revoked'' f);
         open_jobs = list_ex (\<lambda>k. contains k j) [''critical'', ''major'', ''open'']
     in if invalid \<and> open_jobs then ''IBL''
        else if contains ''pending'' c then ''Standby''
        else ''Revenue Service'')"

text \<open>
  \<^verbatim>\<open>classify\<close> of \<^verbatim>\<open>nsga_train_ranking.py\<close>, with \<^verbatim>\<open>ClassificationThresholds\<close> and its
  defaults. Of a ranked item (\<^verbatim>\<open>TrainComputed\<close>) the train, the rank and the crowding distance
  are kept. \<open>train_category\<close> is the \<^verbatim>\<open>if\<close> chain of the loop body; the entries that the loop
  writes into \<^verbatim>\<open>item.reasons\<close> feed nothing into the category and are left out.
\<close>

record classification_thresholds =
  max_open_work_orders_for_ready :: int
  max_cleaning_need_for_ready :: real
  max_stabling_move_for_ready :: real
  cleaning_need_threshold :: real
  maintenance_open_work_orders_threshold :: int

definition default_thresholds :: classification_thresholds where
  "default_thresholds =
    \<lparr>max_open_work_orders_for_ready = 0, max_cleaning_need_for_ready = 3 / 10,
      max_stabling_move_for_ready = 10, cleaning_need_threshold = 1 / 2,
      maintenance_open_work_orders_threshold = 1\<rparr>"

record train_computed =
  train :: train_input
  tc_rank :: "nat option"
  tc_crowding_distance :: pyfloat

definition train_category :: "classification_thresholds \<Rightarrow> train_input \<Rightarrow> string" where
  "train_category thresholds t =
    (if \<not> ti_fitness_valid t
        \<and> ti_open_work_orders t \<ge> maintenance_open_work_orders_threshold thresholds
     then ''Inspection Bay: Maintenance''
     else if ti_cleaning_need_score t \<ge> cleaning_need_threshold thresholds
             \<and> ti_cleaning_slot_available t
     then ''Cleaning/Detailing''
     else (let ready = (ti_fitness_valid t
                 \<and> ti_open_work_orders t \<le> max_open_work_orders_for_ready thresholds
                 \<and> ti_cleaning_need_score t \<le> max_cleaning_need_for_ready thresholds
                 \<and> ti_stabling_move_minutes t \<le> max_stabling_move_for_ready thresholds)
           in if ready then ''Revenue Service'' else ''Revenue Service (Monitor)''))"

definition classify ::
    "train_computed list \<Rightarrow> classification_thresholds \<Rightarrow> (train_computed \<times> string) list" where
  "classify ranked thresholds = map (\<lambda>item. (item, train_category thresholds (train item))) ranked"

text \<open>
  A train whose fitness certificate is not valid, with no open job card, clean and stabled: as
  a row of the service, as a raw row, and as a train of the command line.
\<close>

definition expired_row :: row where
  "expired_row = good_row\<lparr>fitness := Some ''expired''\<rparr>"

definition expired_raw_row :: raw_row where
  "expired_raw_row =
    map_of [(''train_id'', Some ''Train05''), (''fitness'', Some ''expired''),
            (''job_cards'', Some ''closed''), (''branding'', Some ''low''),
            (''cleaning'', Some ''complete''), (''stabling'', Some ''bay2'')]"

definition expired_train :: train_input where
  "expired_train =
    \<lparr>ti_train_id = ''Train05'', ti_fitness_valid = False, ti_open_work_orders = 0,
      ti_branding_hours_remaining = 0, ti_mileage_km = 121000, ti_mileage_target_km = 121000,
      ti_cleaning_need_score = 0, ti_cleaning_slot_available = True,
      ti_stabling_move_minutes = 0\<rparr>"

text \<open>
  Four rows that differ in job cards and branding only: \<open>T0\<close> and \<open>T1\<close> are not dominated,
  \<open>T0\<close> dominates \<open>T3\<close> and \<open>T1\<close> dominates \<open>T2\<close>.
\<close>

definition tie_rows :: "row list" where
  "tie_rows =
    [good_row\<lparr>train_id := Some ''T0'', job_cards := Some ''closed'', branding := Some ''medium''\<rparr>,
     good_row\<lparr>train_id := Some ''T1'', job_cards := Some ''minor'', branding := Some ''low''\<rparr>,
     good_row\<lparr>train_id := Some ''T2'', job_cards := Some ''open'', branding := Some ''low''\<rparr>,
     good_row\<lparr>train_id := Some ''T3'', job_cards := Some ''closed'', branding := Some ''high''\<rparr>]"

section \<open>Predicates of the proofs\<close>

text \<open>
  The sort is verified on the graph that its first loop builds: \<open>S ! p\<close> lists the candidates
  that \<open>p\<close> dominates. \<open>pending S n D q\<close> is the set of candidates that dominate \<open>q\<close> and are
  not in \<open>D\<close>; \<open>peel_inv\<close> is the invariant of the peeling loop and \<open>peel_post\<close> what it
  leaves. \<open>fronts_of objs ix fs\<close> says that \<open>fs\<close> are fronts of the candidates \<open>ix\<close>.
  \<open>spec_category\<close> is the rule of the specification for the disposition category, in its words.
\<close>

definition graph_ok :: "nat list list \<Rightarrow> nat \<Rightarrow> bool" where
  "graph_ok S n \<longleftrightarrow> length S = n \<and> (\<forall>p<n. distinct (S ! p) \<and> set (S ! p) \<subseteq> {..<n})"

definition pending :: "nat list list \<Rightarrow> nat \<Rightarrow> nat set \<Rightarrow> nat \<Rightarrow> nat set" where
  "pending S n done q = {p. p < n \<and> q \<in> set (S ! p) \<and> p \<notin> done}"

definition antichain_fronts :: "nat list list \<Rightarrow> nat list list \<Rightarrow> bool" where
  "antichain_fronts S fronts \<longleftrightarrow> (\<forall>f\<in>set fronts. \<forall>p\<in>set f. \<forall>q\<in>set f. q \<notin> set (S ! p))"

definition chained_fronts :: "nat list list \<Rightarrow> nat list list \<Rightarrow> bool" where
  "chained_fronts S fronts \<longleftrightarrow>
     (\<forall>k. Suc k < length fronts \<longrightarrow> (\<forall>q\<in>set (fronts ! Suc k). \<exists>p\<in>set (fronts ! k). q \<in> set (S ! p)))"

definition peel_inv :: "nat list list \<Rightarrow> nat \<Rightarrow> int list \<Rightarrow> nat list \<Rightarrow> nat list list \<Rightarrow> bool" where
  "peel_inv S n nd current fronts \<longleftrightarrow>
     length nd = n \<and> distinct (concat fronts) \<and> set (concat fronts) \<subseteq> {..<n} \<and> [] \<notin> set fronts
     \<and> (current \<noteq> [] \<longrightarrow> fronts \<noteq> [] \<and> last fronts = current)
     \<and> (\<forall>q<n. nd ! q = int (card (pending S n (set (concat fronts) - set current) q)))
     \<and> (\<forall>q<n. q \<in> set (concat fronts) \<longleftrightarrow> nd ! q = 0)
     \<and> antichain_fronts S fronts \<and> chained_fronts S fronts"

definition peel_post :: "nat list list \<Rightarrow> nat \<Rightarrow> nat list list \<Rightarrow> bool" where
  "peel_post S n fs \<longleftrightarrow>
     distinct (concat fs) \<and> set (concat fs) \<subseteq> {..<n} \<and> [] \<notin> set fs
     \<and> (\<forall>q<n. q \<notin> set (concat fs) \<longrightarrow> (\<exists>p<n. p \<notin> set (concat fs) \<and> q \<in> set (S ! p)))
     \<and> antichain_fronts S fs \<and> chained_fronts S fs"

definition fronts_of :: "real list list \<Rightarrow> nat list \<Rightarrow> nat list list \<Rightarrow> bool" where
  "fronts_of objs ix fs \<longleftrightarrow>
     distinct (concat fs) \<and> set (concat fs) \<subseteq> set ix \<and> [] \<notin> set fs
     \<and> (\<forall>f\<in>set fs. \<forall>p\<in>set f. \<forall>q\<in>set f. \<not> dominates (objs ! p) (objs ! q))
     \<and> (\<forall>k. Suc k < length fs \<longrightarrow> (\<forall>q\<in>set (fs ! Suc k). \<exists>p\<in>set (fs ! k). dominates (objs ! p) (objs ! q)))
     \<and> ((\<exists>m. \<forall>i\<in>set ix. length (objs ! i) = m) \<longrightarrow> set (concat fs) = set ix)"

definition spec_category :: "statuses \<Rightarrow> string" where
  "spec_category st =
    (if s_fitness st = ''Expired'' \<and> s_job_cards st = ''Open'' then ''Inspection Bay Hold''
     else if s_cleaning st = ''Pending'' \<or> s_cleaning st = ''Partial'' then ''Cleaning/Detailing''
     else ''Revenue Service'')"

section \<open>The non-dominated sort is correct\<close>

lemma fold_dom_step:
  assumes "p < length S" "p < length nd"
  shows "fold (dom_step pop p) qs (S, nd) =
     (S[p := S ! p @ filter (\<lambda>q. q \<noteq> p \<and> dominates (pop ! p) (pop ! q)) qs],
      nd[p := nd ! p + int (length (filter (\<lambda>q. q \<noteq> p \<and> \<not> dominates (pop ! p) (pop ! q) \<and> dominates (pop ! q) (pop ! p)) qs))])"
  using assms
proof (induction qs arbitrary: S nd)
  case Nil
  then show ?case by simp
next
  case (Cons q qs)
  show ?case
  proof (cases "p = q")
    case True
    then show ?thesis using Cons by (simp add: dom_step_def)
  next
    case False
    note pq = False
    show ?thesis
    proof (cases "dominates (pop ! p) (pop ! q)")
      case True
      have "fold (dom_step pop p) (q # qs) (S, nd) = fold (dom_step pop p) qs (S[p := S ! p @ [q]], nd)"
        using pq True by (simp add: dom_step_def)
      also have "\<dots> = ((S[p := S ! p @ [q]])[p := (S[p := S ! p @ [q]]) ! p @ filter (\<lambda>q. q \<noteq> p \<and> dominates (pop ! p) (pop ! q)) qs],
      nd[p := nd ! p + int (length (filter (\<lambda>q. q \<noteq> p \<and> \<not> dominates (pop ! p) (pop ! q) \<and> dominates (pop ! q) (pop ! p)) qs))])"
        using Cons.prems by (intro Cons.IH) simp_all
      finally show ?thesis using pq True Cons.prems by simp
    next
      case False
      note npq = False
      show ?thesis
      proof (cases "dominates (pop ! q) (pop ! p)")
        case True
        have "fold (dom_step pop p) (q # qs) (S, nd) = fold (dom_step pop p) qs (S, nd[p := nd ! p + 1])"
          using pq npq True by (simp add: dom_step_def)
        also have "\<dots> = (S[p := S ! p @ filter (\<lambda>q. q \<noteq> p \<and> dominates (pop ! p) (pop ! q)) qs],
           (nd[p := nd ! p + 1])[p := (nd[p := nd ! p + 1]) ! p + int (length (filter (\<lambda>q. q \<noteq> p \<and> \<not> dominates (pop ! p) (pop ! q) \<and> dominates (pop ! q) (pop ! p)) qs))])"
          using Cons.prems by (intro Cons.IH) simp_all
        finally show ?thesis using pq npq True Cons.prems by (simp add: add.assoc)
      next
        case False
        then show ?thesis using pq npq Cons by (simp add: dom_step_def)
      qed
    qed
  qed
qed

lemma fold_rows:
  assumes "distinct ps" "set ps \<subseteq> {0..<n}" "length S = n" "length nd = n"
  shows "fold (\<lambda>p. fold (dom_step pop p) qs) ps (S, nd) =
     (map (\<lambda>i. if i \<in> set ps then S ! i @ filter (\<lambda>q. q \<noteq> i \<and> dominates (pop ! i) (pop ! q)) qs else S ! i) [0..<n],
      map (\<lambda>i. if i \<in> set ps then nd ! i + int (length (filter (\<lambda>q. q \<noteq> i \<and> \<not> dominates (pop ! i) (pop ! q) \<and> dominates (pop ! q) (pop ! i)) qs)) else nd ! i) [0..<n])"
  using assms
proof (induction ps arbitrary: S nd)
  case Nil
  then show ?case by (auto intro: nth_equalityI)
next
  case (Cons p ps)
  let ?A = "\<lambda>i. filter (\<lambda>q. q \<noteq> i \<and> dominates (pop ! i) (pop ! q)) qs"
  let ?B = "\<lambda>i. int (length (filter (\<lambda>q. q \<noteq> i \<and> \<not> dominates (pop ! i) (pop ! q) \<and> dominates (pop ! q) (pop ! i)) qs))"
  let ?S1 = "S[p := S ! p @ ?A p]"
  let ?nd1 = "nd[p := nd ! p + ?B p]"
  have p: "p < n" "p \<notin> set ps" using Cons.prems by auto
  have "fold (\<lambda>p. fold (dom_step pop p) qs) (p # ps) (S, nd) = fold (\<lambda>p. fold (dom_step pop p) qs) ps (?S1, ?nd1)"
    using p Cons.prems by (simp add: fold_dom_step)
  also have "\<dots> = (map (\<lambda>i. if i \<in> set ps then ?S1 ! i @ ?A i else ?S1 ! i) [0..<n],
      map (\<lambda>i. if i \<in> set ps then ?nd1 ! i + ?B i else ?nd1 ! i) [0..<n])"
    using Cons.prems by (intro Cons.IH) simp_all
  also have "map (\<lambda>i. if i \<in> set ps then ?S1 ! i @ ?A i else ?S1 ! i) [0..<n]
      = map (\<lambda>i. if i \<in> set (p # ps) then S ! i @ ?A i else S ! i) [0..<n]"
    using p Cons.prems by (intro map_cong) (auto simp: nth_list_update)
  also have "map (\<lambda>i. if i \<in> set ps then ?nd1 ! i + ?B i else ?nd1 ! i) [0..<n]
      = map (\<lambda>i. if i \<in> set (p # ps) then nd ! i + ?B i else nd ! i) [0..<n]"
    using p Cons.prems by (intro map_cong) (auto simp: nth_list_update)
  finally show ?case .
qed

lemma dom_counts_eq:
  "dom_counts pop =
     (map (\<lambda>p. filter (\<lambda>q. q \<noteq> p \<and> dominates (pop ! p) (pop ! q)) [0..<length pop]) [0..<length pop],
      map (\<lambda>p. int (length (filter (\<lambda>q. q \<noteq> p \<and> \<not> dominates (pop ! p) (pop ! q) \<and> dominates (pop ! q) (pop ! p)) [0..<length pop]))) [0..<length pop])"
  unfolding dom_counts_def Let_def
  by (subst fold_rows [where n = "length pop"]) (auto intro!: map_cong)

lemma fold_fold_concat: "fold (\<lambda>p. fold f (g p)) xs s = fold f (concat (map g xs)) s"
  by (induction xs arbitrary: s) simp_all

lemma peel_front_concat:
  "peel_front S current nd = fold peel_q (concat (map (\<lambda>p. S ! p) current)) (nd, [])"
  by (simp add: peel_front_def fold_fold_concat)

lemma fold_peel_q_length: "length (fst (fold peel_q qs (nd, nxt))) = length nd"
  by (induction qs arbitrary: nd nxt) (simp_all add: peel_q_def Let_def)

lemma fold_peel_q_nth:
  "q < length nd \<Longrightarrow> fst (fold peel_q qs (nd, nxt)) ! q = nd ! q - int (count_list qs q)"
proof (induction qs arbitrary: nd nxt)
  case Nil
  then show ?case by simp
next
  case (Cons a qs)
  have "fst (fold peel_q (a # qs) (nd, nxt)) ! q
      = fst (fold peel_q qs (nd[a := nd ! a - 1], if nd[a := nd ! a - 1] ! a = 0 then nxt @ [a] else nxt)) ! q"
    by (simp add: peel_q_def Let_def)
  also have "\<dots> = nd[a := nd ! a - 1] ! q - int (count_list qs q)"
    using Cons.prems by (intro Cons.IH) simp
  also have "\<dots> = nd ! q - int (count_list (a # qs) q)"
    using Cons.prems by (simp add: nth_list_update)
  finally show ?case .
qed

lemma fold_peel_q_next:
  assumes "set qs \<subseteq> {..<length nd}"
  shows "\<exists>new. snd (fold peel_q qs (nd, nxt)) = nxt @ new \<and> distinct new
     \<and> set new = {q \<in> set qs. 0 < nd ! q \<and> nd ! q \<le> int (count_list qs q)}"
  using assms
proof (induction qs arbitrary: nd nxt)
  case Nil
  then show ?case by simp
next
  case (Cons a qs)
  let ?nd1 = "nd[a := nd ! a - 1]"
  let ?nxt1 = "if ?nd1 ! a = 0 then nxt @ [a] else nxt"
  have a: "a < length nd" and qs: "set qs \<subseteq> {..<length ?nd1}" using Cons.prems by auto
  have nd1a: "?nd1 ! a = nd ! a - 1" using a by simp
  have nd1q: "\<And>q. q \<noteq> a \<Longrightarrow> ?nd1 ! q = nd ! q" by simp
  have step: "fold peel_q (a # qs) (nd, nxt) = fold peel_q qs (?nd1, ?nxt1)"
    by (simp add: peel_q_def Let_def)
  obtain new' where new': "snd (fold peel_q qs (?nd1, ?nxt1)) = ?nxt1 @ new'" "distinct new'"
      "set new' = {q \<in> set qs. 0 < ?nd1 ! q \<and> ?nd1 ! q \<le> int (count_list qs q)}"
    using Cons.IH [OF qs] by blast
  have other: "\<And>q. q \<noteq> a \<Longrightarrow> q \<in> set new' \<longleftrightarrow> (q \<in> set (a # qs) \<and> 0 < nd ! q \<and> nd ! q \<le> int (count_list (a # qs) q))"
    using new'(3) nd1q by auto
  show ?case
  proof (cases "nd ! a = 1")
    case True
    have notin: "a \<notin> set new'" using new'(3) nd1a True by simp
    have "snd (fold peel_q (a # qs) (nd, nxt)) = nxt @ (a # new')"
      using step new'(1) nd1a True by simp
    moreover have "distinct (a # new')" using notin new'(2) by simp
    moreover have "set (a # new') = {q \<in> set (a # qs). 0 < nd ! q \<and> nd ! q \<le> int (count_list (a # qs) q)}"
      (is "_ = ?R")
    proof (rule set_eqI)
      fix q
      show "q \<in> set (a # new') \<longleftrightarrow> q \<in> ?R"
      proof (cases "q = a")
        case True
        then show ?thesis using \<open>nd ! a = 1\<close> by simp
      next
        case False
        then show ?thesis using other [OF False] by simp
      qed
    qed
    ultimately show ?thesis by blast
  next
    case False
    have ain: "a \<in> set new' \<longleftrightarrow> (0 < nd ! a \<and> nd ! a \<le> int (count_list (a # qs) a))"
    proof
      assume "a \<in> set new'"
      then show "0 < nd ! a \<and> nd ! a \<le> int (count_list (a # qs) a)"
        using new'(3) nd1a by auto
    next
      assume h: "0 < nd ! a \<and> nd ! a \<le> int (count_list (a # qs) a)"
      then have "2 \<le> nd ! a" using False by linarith
      then have "0 < count_list qs a" using h by simp
      then have "a \<in> set qs" using count_list_0_iff [of qs a] by simp
      then show "a \<in> set new'" using new'(3) nd1a h False by auto
    qed
    have "snd (fold peel_q (a # qs) (nd, nxt)) = nxt @ new'"
      using step new'(1) nd1a False by simp
    moreover have "set new' = {q \<in> set (a # qs). 0 < nd ! q \<and> nd ! q \<le> int (count_list (a # qs) q)}"
      (is "_ = ?R")
    proof (rule set_eqI)
      fix q
      show "q \<in> set new' \<longleftrightarrow> q \<in> ?R"
      proof (cases "q = a")
        case True
        then show ?thesis using ain by simp
      next
        case False
        then show ?thesis using other [OF False] by simp
      qed
    qed
    ultimately show ?thesis using new'(2) by blast
  qed
qed

lemma count_list_distinct: "distinct xs \<Longrightarrow> count_list xs q = (if q \<in> set xs then 1 else 0)"
  by (induction xs) auto

lemma count_list_concat_map:
  assumes "distinct ps" "\<And>p. p \<in> set ps \<Longrightarrow> distinct (g p)"
  shows "count_list (concat (map g ps)) q = card {p \<in> set ps. q \<in> set (g p)}"
  using assms
proof (induction ps)
  case Nil
  then show ?case by simp
next
  case (Cons a ps)
  have split: "{p \<in> set (a # ps). q \<in> set (g p)} = (if q \<in> set (g a) then {a} else {}) \<union> {p \<in> set ps. q \<in> set (g p)}"
    by auto
  have fin: "finite {p \<in> set ps. q \<in> set (g p)}" by simp
  have "a \<notin> {p \<in> set ps. q \<in> set (g p)}" using Cons.prems by auto
  then have "card {p \<in> set (a # ps). q \<in> set (g p)} = (if q \<in> set (g a) then 1 else 0) + card {p \<in> set ps. q \<in> set (g p)}"
    unfolding split using fin by (auto simp: card_insert_if)
  moreover have "count_list (concat (map g (a # ps))) q = count_list (g a) q + count_list (concat (map g ps)) q"
    by simp
  moreover have "count_list (g a) q = (if q \<in> set (g a) then 1 else 0)"
    using Cons.prems by (simp add: count_list_distinct)
  moreover have "count_list (concat (map g ps)) q = card {p \<in> set ps. q \<in> set (g p)}"
    using Cons by simp
  ultimately show ?case by simp
qed

lemma finite_pending [simp]: "finite (pending S n D q)"
  by (simp add: pending_def)

lemma pending_split:
  assumes "C \<subseteq> {..<n}" "C \<inter> D = {}"
  shows "card (pending S n D q) = card (pending S n (D \<union> C) q) + card {p \<in> C. q \<in> set (S ! p)}"
proof -
  have "pending S n D q = pending S n (D \<union> C) q \<union> {p \<in> C. q \<in> set (S ! p)}"
    using assms by (auto simp: pending_def)
  moreover have "pending S n (D \<union> C) q \<inter> {p \<in> C. q \<in> set (S ! p)} = {}"
    by (auto simp: pending_def)
  moreover have "finite {p \<in> C. q \<in> set (S ! p)}"
  proof (rule finite_subset)
    show "{p \<in> C. q \<in> set (S ! p)} \<subseteq> {..<n}" using assms(1) by blast
    show "finite {..<n}" by simp
  qed
  ultimately show ?thesis by (simp add: card_Un_disjoint)
qed

lemma last_in_concat: "fronts \<noteq> [] \<Longrightarrow> set (last fronts) \<subseteq> set (concat fronts)"
  by (induction fronts) auto

lemma peel_step:
  assumes g: "graph_ok S n"
    and inv: "peel_inv S n nd current fronts"
    and ne: "current \<noteq> []"
    and pf: "peel_front S current nd = (nd', nxt)"
  shows "peel_inv S n nd' nxt (if nxt \<noteq> [] then fronts @ [nxt] else fronts)"
proof -
  let ?qs = "concat (map (\<lambda>p. S ! p) current)"
  let ?D = "set (concat fronts) - set current"
  let ?F = "set (concat fronts)"
  have len: "length nd = n" and dist: "distinct (concat fronts)" and sub: "?F \<subseteq> {..<n}"
    and nonempty: "[] \<notin> set fronts"
    and cur: "fronts \<noteq> []" "last fronts = current"
    and cnt: "\<And>q. q < n \<Longrightarrow> nd ! q = int (card (pending S n ?D q))"
    and zero: "\<And>q. q < n \<Longrightarrow> q \<in> ?F \<longleftrightarrow> nd ! q = 0"
    and anti: "antichain_fronts S fronts" and chain: "chained_fronts S fronts"
    using inv ne by (auto simp: peel_inv_def)
  have cur_sub: "set current \<subseteq> ?F" using cur last_in_concat by metis
  have cur_n: "set current \<subseteq> {..<n}" using cur_sub sub by blast
  have cur_dist: "distinct current"
  proof -
    have "concat fronts = concat (butlast fronts) @ current"
      using cur by (metis append_butlast_last_id concat.simps(1) concat.simps(2) concat_append append_Nil2)
    then show ?thesis using dist by (metis distinct_append)
  qed
  have S_ok: "\<And>p. p \<in> set current \<Longrightarrow> distinct (S ! p) \<and> set (S ! p) \<subseteq> {..<n}"
    using g cur_n by (auto simp: graph_ok_def)
  have qs_sub: "set ?qs \<subseteq> {..<length nd}" using S_ok len by auto
  have count: "count_list ?qs q = card {p \<in> set current. q \<in> set (S ! p)}" for q
  proof (rule count_list_concat_map)
    show "distinct current" by (rule cur_dist)
    fix p assume "p \<in> set current"
    then show "distinct (S ! p)" using S_ok by blast
  qed
  have fold_eq: "fold peel_q ?qs (nd, []) = (nd', nxt)"
    using pf by (simp add: peel_front_concat)
  have len': "length nd' = n"
    using fold_peel_q_length [of ?qs nd "[]"] fold_eq len by simp
  have D_un: "?D \<union> set current = ?F" using cur_sub by auto
  have nd'_eq: "\<And>q. q < n \<Longrightarrow> nd' ! q = int (card (pending S n ?F q))"
  proof -
    fix q assume q: "q < n"
    have "nd' ! q = nd ! q - int (count_list ?qs q)"
      using fold_peel_q_nth [of q nd ?qs "[]"] fold_eq q len by simp
    also have "\<dots> = int (card (pending S n ?D q)) - int (card {p \<in> set current. q \<in> set (S ! p)})"
      using cnt [OF q] count by simp
    also have "\<dots> = int (card (pending S n (?D \<union> set current) q))"
      using pending_split [of "set current" n ?D S q] cur_n by auto
    finally show "nd' ! q = int (card (pending S n ?F q))" using D_un by simp
  qed
  obtain new where new: "snd (fold peel_q ?qs (nd, [])) = [] @ new" "distinct new"
      "set new = {q \<in> set ?qs. 0 < nd ! q \<and> nd ! q \<le> int (count_list ?qs q)}"
    using fold_peel_q_next [OF qs_sub, of "[]"] by blast
  have nxt_new: "nxt = new" using new(1) fold_eq by simp
  have nxt_dist: "distinct nxt" using new(2) nxt_new by simp
  have nxt_n: "set nxt \<subseteq> {..<n}" using new(3) nxt_new qs_sub len by auto
  have nxt_iff: "\<And>q. q < n \<Longrightarrow> q \<in> set nxt \<longleftrightarrow> (0 < nd ! q \<and> nd' ! q = 0)"
  proof -
    fix q assume q: "q < n"
    have eq: "nd' ! q = nd ! q - int (count_list ?qs q)"
      using fold_peel_q_nth [of q nd ?qs "[]"] fold_eq q len by simp
    have ge: "0 \<le> nd' ! q" using nd'_eq [OF q] by simp
    show "q \<in> set nxt \<longleftrightarrow> (0 < nd ! q \<and> nd' ! q = 0)"
    proof
      assume "q \<in> set nxt"
      then show "0 < nd ! q \<and> nd' ! q = 0" using new(3) nxt_new eq ge by auto
    next
      assume h: "0 < nd ! q \<and> nd' ! q = 0"
      then have "0 < count_list ?qs q" using eq by linarith
      then have "q \<in> set ?qs" using count_list_0_iff [of ?qs q] by simp
      then show "q \<in> set nxt" using new(3) nxt_new eq h by auto
    qed
  qed
  have nxt_disj: "set nxt \<inter> ?F = {}"
  proof -
    have "\<And>q. q \<in> set nxt \<Longrightarrow> q \<notin> ?F"
    proof -
      fix q assume a: "q \<in> set nxt"
      then have q: "q < n" using nxt_n by auto
      then have "0 < nd ! q" using nxt_iff a by simp
      then show "q \<notin> ?F" using zero [OF q] by simp
    qed
    then show ?thesis by blast
  qed
  have nxt_from_cur: "\<And>q. q \<in> set nxt \<Longrightarrow> \<exists>p\<in>set current. q \<in> set (S ! p)"
    using new(3) nxt_new by auto
  have nxt_anti: "\<And>p q. p \<in> set nxt \<Longrightarrow> q \<in> set nxt \<Longrightarrow> q \<notin> set (S ! p)"
  proof
    fix p q assume p: "p \<in> set nxt" and q: "q \<in> set nxt" and pq: "q \<in> set (S ! p)"
    have pn: "p < n" and qn: "q < n" using p q nxt_n by auto
    have "p \<notin> ?F" using p nxt_disj by blast
    then have "p \<in> pending S n ?F q" using pn pq by (simp add: pending_def)
    then have "card (pending S n ?F q) \<noteq> 0" using finite_pending by (metis card_0_eq empty_iff)
    then have "nd' ! q \<noteq> 0" using nd'_eq [OF qn] by simp
    then show False using nxt_iff [OF qn] q by simp
  qed
  have zero': "\<And>q. q < n \<Longrightarrow> q \<in> ?F \<union> set nxt \<longleftrightarrow> nd' ! q = 0"
  proof -
    fix q assume q: "q < n"
    have mono: "pending S n ?F q \<subseteq> pending S n ?D q" by (auto simp: pending_def)
    have le: "nd' ! q \<le> nd ! q"
      using nd'_eq [OF q] cnt [OF q] card_mono [OF finite_pending mono] by simp
    have ge: "0 \<le> nd' ! q" "0 \<le> nd ! q" using nd'_eq [OF q] cnt [OF q] by simp_all
    show "q \<in> ?F \<union> set nxt \<longleftrightarrow> nd' ! q = 0"
      using zero [OF q] nxt_iff [OF q] le ge by auto
  qed
  show ?thesis
  proof (cases "nxt = []")
    case True
    have "\<And>q. q < n \<Longrightarrow> nd' ! q = int (card (pending S n (?F - set nxt) q))"
      using nd'_eq True by simp
    then show ?thesis
      using True len' dist sub nonempty zero' anti chain by (simp add: peel_inv_def)
  next
    case False
    let ?fr = "fronts @ [nxt]"
    have c: "concat ?fr = concat fronts @ nxt" by simp
    have d1: "distinct (concat ?fr)" using dist nxt_dist nxt_disj by (auto simp: c)
    have d2: "set (concat ?fr) \<subseteq> {..<n}" using sub nxt_n by (auto simp: c)
    have d3: "[] \<notin> set ?fr" using nonempty False by auto
    have d4: "set (concat ?fr) - set nxt = ?F" using nxt_disj by (auto simp: c)
    have d5: "\<And>q. q < n \<Longrightarrow> nd' ! q = int (card (pending S n (set (concat ?fr) - set nxt) q))"
      using nd'_eq d4 by simp
    have d6: "\<And>q. q < n \<Longrightarrow> q \<in> set (concat ?fr) \<longleftrightarrow> nd' ! q = 0"
      using zero' by (simp add: c)
    have d7: "antichain_fronts S ?fr"
      using anti nxt_anti by (auto simp: antichain_fronts_def)
    have d8: "chained_fronts S ?fr"
      unfolding chained_fronts_def
    proof (intro allI impI ballI)
      fix k q assume k: "Suc k < length ?fr" and q: "q \<in> set (?fr ! Suc k)"
      show "\<exists>p\<in>set (?fr ! k). q \<in> set (S ! p)"
      proof (cases "Suc k < length fronts")
        case True
        then show ?thesis using chain q by (auto simp: chained_fronts_def nth_append)
      next
        case False
        then have sk: "Suc k = length fronts" using k by simp
        then have "?fr ! Suc k = nxt" by (simp add: nth_append)
        moreover have "?fr ! k = current"
          using sk cur by (metis last_conv_nth diff_Suc_1 lessI nth_append)
        ultimately show ?thesis using nxt_from_cur q by simp
      qed
    qed
    show ?thesis
      using False len' d1 d2 d3 d5 d6 d7 d8 by (simp add: peel_inv_def)
  qed
qed

lemma dominates_iff:
  "dominates a b \<longleftrightarrow>
     (\<forall>i<min (length a) (length b). a ! i \<le> b ! i) \<and> (\<exists>i<min (length a) (length b). a ! i < b ! i)"
  by (auto simp: dominates_def Let_def list_all_iff list_ex_iff set_zip)

lemma dominates_irrefl: "\<not> dominates a a"
  by (simp add: dominates_iff)

lemma dominates_asym: "dominates a b \<Longrightarrow> \<not> dominates b a"
  by (auto simp: dominates_iff min.commute)

lemma dominates_sum:
  assumes "dominates a b" "length a = length b"
  shows "sum_list a < sum_list b"
proof -
  have "(\<Sum>i<length a. a ! i) < (\<Sum>i<length a. b ! i)"
    using assms by (intro sum_strict_mono_ex1) (auto simp: dominates_iff)
  then show ?thesis using assms(2) by (simp add: sum_list_sum_nth atLeast0LessThan)
qed

lemma peel_inv_exit:
  assumes "peel_inv S n nd [] fronts"
  shows "peel_post S n fronts"
proof -
  have cnt: "\<And>q. q < n \<Longrightarrow> nd ! q = int (card (pending S n (set (concat fronts)) q))"
    and zero: "\<And>q. q < n \<Longrightarrow> q \<in> set (concat fronts) \<longleftrightarrow> nd ! q = 0"
    using assms by (auto simp: peel_inv_def)
  have "\<exists>p<n. p \<notin> set (concat fronts) \<and> q \<in> set (S ! p)" if q: "q < n" "q \<notin> set (concat fronts)" for q
  proof -
    have "card (pending S n (set (concat fronts)) q) \<noteq> 0" using cnt [OF q(1)] zero [OF q(1)] q(2) by simp
    then have "pending S n (set (concat fronts)) q \<noteq> {}" by (metis card.empty)
    then show ?thesis by (auto simp: pending_def)
  qed
  moreover have "distinct (concat fronts)" "set (concat fronts) \<subseteq> {..<n}" "[] \<notin> set fronts"
    "antichain_fronts S fronts" "chained_fronts S fronts"
    using assms by (simp_all add: peel_inv_def)
  ultimately show ?thesis unfolding peel_post_def by blast
qed

lemma concat_length_le:
  assumes "distinct xs" "set xs \<subseteq> {..<n}"
  shows "length xs \<le> n"
proof -
  have "length xs = card (set xs)" using assms(1) by (simp add: distinct_card)
  also have "\<dots> \<le> card {..<n}" using assms(2) by (intro card_mono) simp_all
  finally show ?thesis by simp
qed

lemma peel_loop_post:
  assumes "graph_ok S n" "peel_inv S n nd current fronts"
  shows "\<exists>fs. peel_loop S nd current fronts = Some fs \<and> peel_post S n fs"
  using assms(2)
proof (induction "n - length (concat fronts)" arbitrary: nd current fronts rule: less_induct)
  case less
  show ?case
  proof (cases "current = []")
    case True
    then show ?thesis using less.prems peel_inv_exit by (subst peel_loop.simps) simp
  next
    case False
    obtain nd' nxt where pf: "peel_front S current nd = (nd', nxt)" by (cases "peel_front S current nd")
    have inv': "peel_inv S n nd' nxt (if nxt \<noteq> [] then fronts @ [nxt] else fronts)"
      using peel_step [OF assms(1) less.prems False pf] .
    have unfold: "peel_loop S nd current fronts
        = peel_loop S nd' nxt (if nxt \<noteq> [] then fronts @ [nxt] else fronts)"
      using False pf by (subst peel_loop.simps) simp
    show ?thesis
    proof (cases "nxt = []")
      case True
      then have "peel_loop S nd current fronts = Some fronts"
        using unfold by (simp add: peel_loop.simps)
      moreover have "peel_post S n fronts" using inv' True peel_inv_exit by simp
      ultimately show ?thesis by simp
    next
      case False
      have inv'': "peel_inv S n nd' nxt (fronts @ [nxt])" using inv' False by simp
      have "length (concat (fronts @ [nxt])) \<le> n"
        using inv'' by (intro concat_length_le) (simp_all add: peel_inv_def)
      moreover have "length (concat (fronts @ [nxt])) > length (concat fronts)"
        using False by simp
      ultimately have "n - length (concat (fronts @ [nxt])) < n - length (concat fronts)" by linarith
      from less.hyps [OF this inv''] show ?thesis using unfold False by simp
    qed
  qed
qed

lemma length_filter_upt: "length (filter P [0..<n]) = card {p. p < n \<and> P p}"
proof -
  have "card (set (filter P [0..<n])) = length (filter P [0..<n])"
    by (rule distinct_card) simp
  moreover have "set (filter P [0..<n]) = {p. p < n \<and> P p}" by auto
  ultimately show ?thesis by simp
qed

lemma init_inv:
  assumes dc: "dom_counts pop = (S, nd)"
  defines "n \<equiv> length pop"
  defines "current \<equiv> filter (\<lambda>i. nd ! i = 0) [0..<n]"
  shows "graph_ok S n" and "peel_inv S n nd current (if current \<noteq> [] then [current] else [])"
    and "\<And>p q. p < n \<Longrightarrow> q < n \<Longrightarrow> q \<in> set (S ! p) \<longleftrightarrow> dominates (pop ! p) (pop ! q)"
proof -
  have S: "S = map (\<lambda>p. filter (\<lambda>q. q \<noteq> p \<and> dominates (pop ! p) (pop ! q)) [0..<n]) [0..<n]"
    and nd: "nd = map (\<lambda>p. int (length (filter (\<lambda>q. q \<noteq> p \<and> \<not> dominates (pop ! p) (pop ! q) \<and> dominates (pop ! q) (pop ! p)) [0..<n]))) [0..<n]"
    using dc unfolding dom_counts_eq n_def by simp_all
  show g: "graph_ok S n" unfolding S graph_ok_def by auto
  show memb: "\<And>p q. p < n \<Longrightarrow> q < n \<Longrightarrow> q \<in> set (S ! p) \<longleftrightarrow> dominates (pop ! p) (pop ! q)"
    unfolding S using dominates_irrefl by auto
  have ndq: "nd ! q = int (card (pending S n {} q))" if q: "q < n" for q
  proof -
    have "nd ! q = int (card {p. p < n \<and> (p \<noteq> q \<and> \<not> dominates (pop ! q) (pop ! p) \<and> dominates (pop ! p) (pop ! q))})"
      unfolding nd using q by (simp add: length_filter_upt)
    also have "{p. p < n \<and> (p \<noteq> q \<and> \<not> dominates (pop ! q) (pop ! p) \<and> dominates (pop ! p) (pop ! q))} = pending S n {} q"
      using memb q dominates_asym dominates_irrefl by (auto simp: pending_def)
    finally show ?thesis .
  qed
  have len: "length nd = n" unfolding nd by simp
  have cur_set: "set current = {q. q < n \<and> nd ! q = 0}" unfolding current_def by auto
  have cur_dist: "distinct current" unfolding current_def by simp
  have anti: "q \<notin> set (S ! p)" if "p \<in> set current" "q \<in> set current" for p q
  proof
    assume pq: "q \<in> set (S ! p)"
    have "p < n" "q < n" "nd ! q = 0" using that cur_set by auto
    then have "p \<in> pending S n {} q" using pq by (simp add: pending_def)
    then have "card (pending S n {} q) \<noteq> 0" using finite_pending by (metis card_0_eq empty_iff)
    then show False using ndq [OF \<open>q < n\<close>] \<open>nd ! q = 0\<close> by simp
  qed
  show "peel_inv S n nd current (if current \<noteq> [] then [current] else [])"
  proof (cases "current = []")
    case True
    then have "\<And>q. q < n \<Longrightarrow> nd ! q \<noteq> 0" using cur_set by auto
    then show ?thesis using True len ndq
      by (simp add: peel_inv_def antichain_fronts_def chained_fronts_def)
  next
    case False
    then show ?thesis using len ndq cur_set cur_dist anti
      by (auto simp: peel_inv_def antichain_fronts_def chained_fronts_def)
  qed
qed

lemma peel_post_total:
  assumes post: "peel_post S n fs"
    and pot: "\<And>p q. p < n \<Longrightarrow> q < n \<Longrightarrow> q \<in> set (S ! p) \<Longrightarrow> (phi p :: real) < phi q"
  shows "set (concat fs) = {..<n}"
proof (rule ccontr)
  assume neq: "set (concat fs) \<noteq> {..<n}"
  let ?U = "{q. q < n \<and> q \<notin> set (concat fs)}"
  have sub: "set (concat fs) \<subseteq> {..<n}" using post by (simp add: peel_post_def)
  have ne: "?U \<noteq> {}" using neq sub by auto
  have fin: "finite ?U" by simp
  have "Min (phi ` ?U) \<in> phi ` ?U" using ne fin by (intro Min_in) auto
  then obtain q where q: "q \<in> ?U" "phi q = Min (phi ` ?U)" by auto
  have least: "\<And>p. p \<in> ?U \<Longrightarrow> phi q \<le> phi p" using q(2) fin by simp
  obtain p where p: "p < n" "p \<notin> set (concat fs)" "q \<in> set (S ! p)"
    using post q(1) unfolding peel_post_def by blast
  have "phi p < phi q" using pot p q(1) by simp
  moreover have "phi q \<le> phi p" using least p by simp
  ultimately show False by simp
qed

lemma non_dominated_sort_fronts:
  "\<exists>fs. non_dominated_sort pop = Some fs
     \<and> distinct (concat fs) \<and> set (concat fs) \<subseteq> {..<length pop} \<and> [] \<notin> set fs
     \<and> (\<forall>f\<in>set fs. \<forall>p\<in>set f. \<forall>q\<in>set f. \<not> dominates (pop ! p) (pop ! q))
     \<and> (\<forall>k. Suc k < length fs \<longrightarrow> (\<forall>q\<in>set (fs ! Suc k). \<exists>p\<in>set (fs ! k). dominates (pop ! p) (pop ! q)))
     \<and> ((\<forall>v\<in>set pop. length v = m) \<longrightarrow> set (concat fs) = {..<length pop})"
proof -
  obtain S nd where dc: "dom_counts pop = (S, nd)" by (cases "dom_counts pop")
  let ?n = "length pop"
  let ?cur = "filter (\<lambda>i. nd ! i = 0) [0..<?n]"
  note init = init_inv [OF dc]
  obtain fs where fs: "peel_loop S nd ?cur (if ?cur \<noteq> [] then [?cur] else []) = Some fs" "peel_post S ?n fs"
    using peel_loop_post [OF init(1) init(2)] by blast
  have run: "non_dominated_sort pop = Some fs"
    using fs(1) dc by (simp add: non_dominated_sort_def Let_def)
  have sub: "set (concat fs) \<subseteq> {..<?n}" and dist: "distinct (concat fs)" and nonempty: "[] \<notin> set fs"
    and anti: "antichain_fronts S fs" and chain: "chained_fronts S fs"
    using fs(2) by (simp_all add: peel_post_def)
  have in_n: "\<And>f p. f \<in> set fs \<Longrightarrow> p \<in> set f \<Longrightarrow> p < ?n" using sub by auto
  have a: "\<forall>f\<in>set fs. \<forall>p\<in>set f. \<forall>q\<in>set f. \<not> dominates (pop ! p) (pop ! q)"
    using anti in_n init(3) unfolding antichain_fronts_def by blast
  have c: "\<forall>k. Suc k < length fs \<longrightarrow> (\<forall>q\<in>set (fs ! Suc k). \<exists>p\<in>set (fs ! k). dominates (pop ! p) (pop ! q))"
  proof (intro allI impI ballI)
    fix k q assume k: "Suc k < length fs" and q: "q \<in> set (fs ! Suc k)"
    then obtain p where p: "p \<in> set (fs ! k)" "q \<in> set (S ! p)"
      using chain unfolding chained_fronts_def by blast
    have "p < ?n" "q < ?n" using in_n [of "fs ! k" p] in_n [of "fs ! Suc k" q] k p q by auto
    then show "\<exists>p\<in>set (fs ! k). dominates (pop ! p) (pop ! q)" using init(3) p by blast
  qed
  have t: "set (concat fs) = {..<?n}" if eq: "\<forall>v\<in>set pop. length v = m"
  proof (rule peel_post_total [OF fs(2), where phi = "\<lambda>i. sum_list (pop ! i)"])
    fix p q assume "p < ?n" "q < ?n" "q \<in> set (S ! p)"
    then show "sum_list (pop ! p) < sum_list (pop ! q)"
      using init(3) eq by (intro dominates_sum) auto
  qed
  show ?thesis using run sub dist nonempty a c t by blast
qed

lemma sub_sort:
  assumes d: "distinct ix"
  shows "\<exists>fs. non_dominated_sort (map (\<lambda>i. objs ! i) ix) = Some fs
            \<and> fronts_of objs ix (map (map (\<lambda>j. ix ! j)) fs)"
proof -
  let ?pop = "map (\<lambda>i. objs ! i) ix"
  let ?g = "\<lambda>j. ix ! j"
  obtain m0 where m0: "(\<exists>m. \<forall>i\<in>set ix. length (objs ! i) = m) \<longrightarrow> (\<forall>i\<in>set ix. length (objs ! i) = m0)"
    by blast
  obtain fs where fs: "non_dominated_sort ?pop = Some fs"
     "distinct (concat fs)" "set (concat fs) \<subseteq> {..<length ?pop}" "[] \<notin> set fs"
     "\<forall>f\<in>set fs. \<forall>p\<in>set f. \<forall>q\<in>set f. \<not> dominates (?pop ! p) (?pop ! q)"
     "\<forall>k. Suc k < length fs \<longrightarrow> (\<forall>q\<in>set (fs ! Suc k). \<exists>p\<in>set (fs ! k). dominates (?pop ! p) (?pop ! q))"
     "(\<forall>v\<in>set ?pop. length v = m0) \<longrightarrow> set (concat fs) = {..<length ?pop}"
    using non_dominated_sort_fronts [of ?pop m0] by blast
  let ?fs = "map (map ?g) fs"
  have sub: "set (concat fs) \<subseteq> {..<length ix}" using fs(3) by simp
  have in_len: "\<And>f p. f \<in> set fs \<Longrightarrow> p \<in> set f \<Longrightarrow> p < length ix" using sub by auto
  have cc: "concat ?fs = map ?g (concat fs)" by (simp add: map_concat)
  have inj: "inj_on ?g (set (concat fs))"
    using d sub by (auto simp: inj_on_def distinct_conv_nth)
  have 1: "distinct (concat ?fs)" unfolding cc using fs(2) inj by (simp add: distinct_map)
  have 2: "set (concat ?fs) \<subseteq> set ix" unfolding cc using sub by auto
  have 3: "[] \<notin> set ?fs" using fs(4) by auto
  have 4: "\<forall>f\<in>set ?fs. \<forall>p\<in>set f. \<forall>q\<in>set f. \<not> dominates (objs ! p) (objs ! q)"
  proof (intro ballI)
    fix f p q assume f: "f \<in> set ?fs" and p: "p \<in> set f" and q: "q \<in> set f"
    obtain f0 where f0: "f0 \<in> set fs" "f = map ?g f0" using f by auto
    obtain p0 q0 where pq: "p0 \<in> set f0" "q0 \<in> set f0" "p = ix ! p0" "q = ix ! q0" using p q f0 by auto
    have "p0 < length ix" "q0 < length ix" using in_len f0 pq by auto
    then have "?pop ! p0 = objs ! p" "?pop ! q0 = objs ! q" using pq by simp_all
    then show "\<not> dominates (objs ! p) (objs ! q)" using fs(5) f0 pq by metis
  qed
  have 5: "\<forall>k. Suc k < length ?fs \<longrightarrow> (\<forall>q\<in>set (?fs ! Suc k). \<exists>p\<in>set (?fs ! k). dominates (objs ! p) (objs ! q))"
  proof (intro allI impI ballI)
    fix k q assume k: "Suc k < length ?fs" and q: "q \<in> set (?fs ! Suc k)"
    have k': "Suc k < length fs" using k by simp
    obtain q0 where q0: "q0 \<in> set (fs ! Suc k)" "q = ix ! q0" using q k' by auto
    obtain p0 where p0: "p0 \<in> set (fs ! k)" "dominates (?pop ! p0) (?pop ! q0)"
      using fs(6) k' q0 by blast
    have "p0 < length ix" "q0 < length ix"
      using in_len [of "fs ! k" p0] in_len [of "fs ! Suc k" q0] k' p0 q0 by auto
    then have "dominates (objs ! (ix ! p0)) (objs ! q)" using p0(2) q0(2) by simp
    moreover have "ix ! p0 \<in> set (?fs ! k)" using p0(1) k' by simp
    ultimately show "\<exists>p\<in>set (?fs ! k). dominates (objs ! p) (objs ! q)" by blast
  qed
  have 6: "(\<exists>m. \<forall>i\<in>set ix. length (objs ! i) = m) \<longrightarrow> set (concat ?fs) = set ix"
  proof
    assume "\<exists>m. \<forall>i\<in>set ix. length (objs ! i) = m"
    then have "\<forall>v\<in>set ?pop. length v = m0" using m0 by auto
    then have "set (concat fs) = {..<length ix}" using fs(7) by simp
    then have "set (concat ?fs) = ?g ` {..<length ix}" unfolding cc by simp
    also have "\<dots> = set ix" by (auto simp: set_conv_nth)
    finally show "set (concat ?fs) = set ix" .
  qed
  show ?thesis using fs(1) 1 2 3 4 5 6 unfolding fronts_of_def by blast
qed

lemma fronts_of_Nil: "fronts_of objs [] []"
  by (simp add: fronts_of_def)

lemma nsga_order_fronts_split:
  "\<exists>F I. nsga_order_fronts objs pens = Some (F @ I)
     \<and> fronts_of objs (filter (\<lambda>i. pens ! i \<le> 0) [0..<length pens]) F
     \<and> fronts_of objs (filter (\<lambda>i. pens ! i > 0) [0..<length pens]) I"
proof -
  let ?feas = "filter (\<lambda>i. pens ! i \<le> 0) [0..<length pens]"
  let ?inf = "filter (\<lambda>i. pens ! i > 0) [0..<length pens]"
  obtain ffs where ffs: "non_dominated_sort (map (\<lambda>i. objs ! i) ?feas) = Some ffs"
      "fronts_of objs ?feas (map (map (\<lambda>j. ?feas ! j)) ffs)"
    using sub_sort [of ?feas objs] by auto
  obtain ifs where ifs: "non_dominated_sort (map (\<lambda>i. objs ! i) ?inf) = Some ifs"
      "fronts_of objs ?inf (map (map (\<lambda>j. ?inf ! j)) ifs)"
    using sub_sort [of ?inf objs] by auto
  let ?F = "if ?feas \<noteq> [] then map (map (\<lambda>j. ?feas ! j)) ffs else []"
  let ?I = "if ?inf \<noteq> [] then map (map (\<lambda>j. ?inf ! j)) ifs else []"
  have "nsga_order_fronts objs pens = Some (?F @ ?I)"
    unfolding nsga_order_fronts_def Let_def using ffs(1) ifs(1) by simp
  moreover have "fronts_of objs ?feas ?F"
    using ffs(2) fronts_of_Nil [of objs] by (cases "?feas = []") simp_all
  moreover have "fronts_of objs ?inf ?I"
    using ifs(2) fronts_of_Nil [of objs] by (cases "?inf = []") simp_all
  ultimately show ?thesis by blast
qed

lemma map_fst_order_loop: "map fst (order_loop objs k fs) = concat fs"
  by (induction fs arbitrary: k) (simp_all add: Let_def comp_def)

lemma order_loop_set:
  "t \<in> set (order_loop objs k fs) \<longleftrightarrow>
     (\<exists>j<length fs. fst t \<in> set (fs ! j) \<and> snd (snd t) = k + j
        \<and> fst (snd t) = fl_neg (case crowding_distance (fs ! j) objs (fst t) of None \<Rightarrow> Fin 0 | Some v \<Rightarrow> v))"
proof (induction fs arbitrary: k)
  case Nil
  then show ?case by simp
next
  case (Cons f fs)
  have "t \<in> set (order_loop objs k (f # fs)) \<longleftrightarrow>
      (fst t \<in> set f \<and> snd (snd t) = k \<and> fst (snd t) = fl_neg (case crowding_distance f objs (fst t) of None \<Rightarrow> Fin 0 | Some v \<Rightarrow> v))
      \<or> t \<in> set (order_loop objs (k + 1) fs)"
    by (cases t) (auto simp: Let_def)
  also have "\<dots> \<longleftrightarrow> (\<exists>j<length (f # fs). fst t \<in> set ((f # fs) ! j) \<and> snd (snd t) = k + j
        \<and> fst (snd t) = fl_neg (case crowding_distance ((f # fs) ! j) objs (fst t) of None \<Rightarrow> Fin 0 | Some v \<Rightarrow> v))"
    (is "?L \<longleftrightarrow> ?R")
  proof
    assume ?L
    then show ?R
    proof
      assume "fst t \<in> set f \<and> snd (snd t) = k \<and> fst (snd t) = fl_neg (case crowding_distance f objs (fst t) of None \<Rightarrow> Fin 0 | Some v \<Rightarrow> v)"
      then show ?R by (intro exI [of _ 0]) simp
    next
      assume "t \<in> set (order_loop objs (k + 1) fs)"
      then obtain j where "j < length fs" "fst t \<in> set (fs ! j)" "snd (snd t) = k + 1 + j"
        "fst (snd t) = fl_neg (case crowding_distance (fs ! j) objs (fst t) of None \<Rightarrow> Fin 0 | Some v \<Rightarrow> v)"
        using Cons.IH [of "k + 1"] by blast
      then show ?R by (intro exI [of _ "Suc j"]) simp
    qed
  next
    assume ?R
    then obtain j where j: "j < length (f # fs)" "fst t \<in> set ((f # fs) ! j)" "snd (snd t) = k + j"
        "fst (snd t) = fl_neg (case crowding_distance ((f # fs) ! j) objs (fst t) of None \<Rightarrow> Fin 0 | Some v \<Rightarrow> v)"
      by blast
    show ?L
    proof (cases j)
      case 0
      then show ?thesis using j by simp
    next
      case (Suc j')
      then have "t \<in> set (order_loop objs (k + 1) fs)"
        using j Cons.IH [of "k + 1"] by auto
      then show ?thesis by simp
    qed
  qed
  finally show ?case .
qed

lemma distinct_concat_nth_unique:
  assumes "distinct (concat xss)" "j < length xss" "k < length xss" "x \<in> set (xss ! j)" "x \<in> set (xss ! k)"
  shows "j = k"
  using assms
proof (induction xss arbitrary: j k)
  case Nil
  then show ?case by simp
next
  case (Cons xs xss)
  have disj: "\<And>i. i < length xss \<Longrightarrow> set xs \<inter> set (xss ! i) = {}"
    using Cons.prems(1) by (fastforce simp: in_set_conv_nth)
  show ?case
  proof (cases j)
    case 0
    then show ?thesis using Cons.prems disj by (cases k) auto
  next
    case (Suc j')
    note j = Suc
    show ?thesis
    proof (cases k)
      case 0
      then show ?thesis using Cons.prems disj j by auto
    next
      case (Suc k')
      then show ?thesis using Cons.prems j Cons.IH [of j' k'] by auto
    qed
  qed
qed

lemma feas_infeas_sets:
  "set (filter (\<lambda>i. pens ! i \<le> (0::real)) [0..<n]) \<union> set (filter (\<lambda>i. pens ! i > 0) [0..<n]) = {..<n}"
  "set (filter (\<lambda>i. pens ! i \<le> (0::real)) [0..<n]) \<inter> set (filter (\<lambda>i. pens ! i > 0) [0..<n]) = {}"
  by auto

lemma nsga_fronts_total:
  assumes len: "length pens = length objs" and dims: "\<forall>v\<in>set objs. length v = m"
  shows "\<exists>F I. nsga_order_fronts objs pens = Some (F @ I)
     \<and> fronts_of objs (filter (\<lambda>i. pens ! i \<le> 0) [0..<length pens]) F
     \<and> fronts_of objs (filter (\<lambda>i. pens ! i > 0) [0..<length pens]) I
     \<and> set (concat F) = {i. i < length objs \<and> pens ! i \<le> 0}
     \<and> set (concat I) = {i. i < length objs \<and> pens ! i > 0}
     \<and> distinct (concat (F @ I)) \<and> set (concat (F @ I)) = {..<length objs}"
proof -
  let ?feas = "filter (\<lambda>i. pens ! i \<le> 0) [0..<length pens]"
  let ?inf = "filter (\<lambda>i. pens ! i > 0) [0..<length pens]"
  obtain F I where FI: "nsga_order_fronts objs pens = Some (F @ I)"
      "fronts_of objs ?feas F" "fronts_of objs ?inf I"
    using nsga_order_fronts_split [of objs pens] by blast
  have "\<forall>i\<in>set ?feas. length (objs ! i) = m" "\<forall>i\<in>set ?inf. length (objs ! i) = m"
    using len dims by auto
  then have sF: "set (concat F) = set ?feas" and sI: "set (concat I) = set ?inf"
    using FI(2,3) unfolding fronts_of_def by blast+
  have dF: "distinct (concat F)" and dI: "distinct (concat I)"
    using FI(2,3) unfolding fronts_of_def by blast+
  have d: "distinct (concat (F @ I))"
    using dF dI sF sI feas_infeas_sets(2) [of pens "length pens"] by simp
  have s: "set (concat (F @ I)) = {..<length objs}"
    using sF sI feas_infeas_sets(1) [of pens "length pens"] len by simp
  have "set (concat F) = {i. i < length objs \<and> pens ! i \<le> 0}" using sF len by auto
  moreover have "set (concat I) = {i. i < length objs \<and> pens ! i > 0}" using sI len by auto
  ultimately show ?thesis using FI d s by blast
qed

section \<open>Every candidate is in one front\<close>

text \<open>
  C10. For a population of vectors of one length, with one penalty per candidate, the fronts
  that \<open>nsga_order\<close> builds (feasible ones first, then infeasible ones) hold every candidate
  index once: the concatenation of the fronts is a permutation of \<open>[0..<n]\<close> and every index
  is in exactly one front. The ranking returns, and its output lists every index once.
\<close>

theorem fronts_partition_candidates:
  assumes len: "length pens = length objs" and dims: "\<forall>v\<in>set objs. length v = m"
  shows "\<exists>fronts order. nsga_order_fronts objs pens = Some fronts
      \<and> mset (concat fronts) = mset [0..<length objs]
      \<and> (\<forall>i<length objs. \<exists>!k. k < length fronts \<and> i \<in> set (fronts ! k))
      \<and> nsga_order objs pens = Some order
      \<and> mset (map fst order) = mset [0..<length objs]"
proof -
  obtain F I where FI: "nsga_order_fronts objs pens = Some (F @ I)"
      "distinct (concat (F @ I))" "set (concat (F @ I)) = {..<length objs}"
    using nsga_fronts_total [OF assms] by blast
  let ?fronts = "F @ I"
  let ?order = "sort_key (\<lambda>t. (snd (snd t), fst (snd t))) (order_loop objs 1 ?fronts)"
  have m: "mset (concat ?fronts) = mset [0..<length objs]"
  proof -
    have "set (concat ?fronts) = set [0..<length objs]" using FI(3) by auto
    then show ?thesis
      using FI(2) set_eq_iff_mset_eq_distinct [of "concat ?fronts" "[0..<length objs]"] by simp
  qed
  have u: "\<forall>i<length objs. \<exists>!k. k < length ?fronts \<and> i \<in> set (?fronts ! k)"
  proof (intro allI impI)
    fix i assume "i < length objs"
    then have "i \<in> set (concat ?fronts)" using FI(3) by simp
    then obtain f where "f \<in> set ?fronts" "i \<in> set f" by auto
    then obtain k where k: "k < length ?fronts" "i \<in> set (?fronts ! k)"
      by (metis in_set_conv_nth)
    show "\<exists>!k. k < length ?fronts \<and> i \<in> set (?fronts ! k)"
    proof (rule ex1I [of _ k])
      show "k < length ?fronts \<and> i \<in> set (?fronts ! k)" using k by simp
    next
      fix k' assume "k' < length ?fronts \<and> i \<in> set (?fronts ! k')"
      then show "k' = k" using distinct_concat_nth_unique [OF FI(2), of k' k i] k by simp
    qed
  qed
  have o: "nsga_order objs pens = Some ?order" by (simp add: nsga_order_def FI(1))
  have "mset (map fst ?order) = image_mset fst (mset (order_loop objs 1 ?fronts))" by simp
  also have "\<dots> = mset (map fst (order_loop objs 1 ?fronts))" by simp
  also have "\<dots> = mset [0..<length objs]" using m by (simp only: map_fst_order_loop)
  finally have om: "mset (map fst ?order) = mset [0..<length objs]" .
  show ?thesis using FI(1) m u o om by blast
qed

theorem fronts_partition_candidates_witness:
  "length [0, 10 :: real] = length [[0, 2], [2, 0 :: real]]
   \<and> list_all (\<lambda>v. length v = 2) [[0, 2], [2, 0 :: real]]
   \<and> (\<exists>fronts order. nsga_order_fronts [[0, 2], [2, 0]] [0, 10] = Some fronts
      \<and> mset (concat fronts) = mset [0..<length [[0, 2], [2, 0 :: real]]]
      \<and> (\<forall>i<length [[0, 2], [2, 0 :: real]]. \<exists>!k. k < length fronts \<and> i \<in> set (fronts ! k))
      \<and> nsga_order [[0, 2], [2, 0]] [0, 10] = Some order
      \<and> mset (map fst order) = mset [0..<length [[0, 2], [2, 0 :: real]]])"
proof (intro conjI)
  show "length [0, 10 :: real] = length [[0, 2], [2, 0 :: real]]" by simp
  show "list_all (\<lambda>v. length v = 2) [[0, 2], [2, 0 :: real]]" by simp
  show "\<exists>fronts order. nsga_order_fronts [[0, 2], [2, 0]] [0, 10] = Some fronts
      \<and> mset (concat fronts) = mset [0..<length [[0, 2], [2, 0 :: real]]]
      \<and> (\<forall>i<length [[0, 2], [2, 0 :: real]]. \<exists>!k. k < length fronts \<and> i \<in> set (fronts ! k))
      \<and> nsga_order [[0, 2], [2, 0]] [0, 10] = Some order
      \<and> mset (map fst order) = mset [0..<length [[0, 2], [2, 0 :: real]]]"
    by (rule fronts_partition_candidates [where m = 2]) simp_all
qed

section \<open>Feasible candidates come first\<close>

text \<open>
  C3. The fronts are those of the feasible candidates (penalty \<open>\<le> 0\<close>) followed by those of
  the infeasible ones (penalty \<open>> 0\<close>). A feasible candidate \<open>i\<close> and an infeasible candidate
  \<open>j\<close> both appear in the output, and every rank of \<open>i\<close> there is strictly smaller than every
  rank of \<open>j\<close>, whatever the objective values are.
\<close>

theorem feasible_ranked_before_infeasible:
  assumes len: "length pens = length objs" and dims: "\<forall>v\<in>set objs. length v = m"
    and i: "i < length objs" "pens ! i \<le> 0" and j: "j < length objs" "pens ! j > 0"
  shows "\<exists>F I order. nsga_order_fronts objs pens = Some (F @ I)
      \<and> (\<forall>f\<in>set F. \<forall>p\<in>set f. pens ! p \<le> 0) \<and> (\<forall>f\<in>set I. \<forall>p\<in>set f. pens ! p > 0)
      \<and> nsga_order objs pens = Some order
      \<and> (\<exists>ci ri. (i, ci, ri) \<in> set order) \<and> (\<exists>cj rj. (j, cj, rj) \<in> set order)
      \<and> (\<forall>ci ri cj rj. (i, ci, ri) \<in> set order \<longrightarrow> (j, cj, rj) \<in> set order \<longrightarrow> ri < rj)"
proof -
  obtain F I where FI: "nsga_order_fronts objs pens = Some (F @ I)"
      "set (concat F) = {i. i < length objs \<and> pens ! i \<le> 0}"
      "set (concat I) = {i. i < length objs \<and> pens ! i > 0}"
    using nsga_fronts_total [OF len dims] by blast
  let ?fronts = "F @ I"
  let ?order = "sort_key (\<lambda>t. (snd (snd t), fst (snd t))) (order_loop objs 1 ?fronts)"
  have inF: "x \<in> set (concat F) \<longleftrightarrow> x < length objs \<and> pens ! x \<le> 0" for x
    unfolding FI(2) by simp
  have inI: "x \<in> set (concat I) \<longleftrightarrow> x < length objs \<and> pens ! x > 0" for x
    unfolding FI(3) by simp
  have o: "nsga_order objs pens = Some ?order" by (simp add: nsga_order_def FI(1))
  have mem: "\<And>t. t \<in> set ?order \<longleftrightarrow> (\<exists>k<length ?fronts. fst t \<in> set (?fronts ! k) \<and> snd (snd t) = 1 + k
        \<and> fst (snd t) = fl_neg (case crowding_distance (?fronts ! k) objs (fst t) of None \<Rightarrow> Fin 0 | Some v \<Rightarrow> v))"
    using order_loop_set [of _ objs 1 ?fronts] by simp
  have F: "\<forall>f\<in>set F. \<forall>p\<in>set f. pens ! p \<le> 0" using inF by auto
  have I: "\<forall>f\<in>set I. \<forall>p\<in>set f. pens ! p > 0" using inI by auto
  have ex: "\<exists>c r. (x, c, r) \<in> set ?order" if xin: "x \<in> set (concat ?fronts)" for x
  proof -
    obtain f where "f \<in> set ?fronts" "x \<in> set f" using xin unfolding set_concat by blast
    then obtain k where k: "k < length ?fronts" "x \<in> set (?fronts ! k)" by (metis in_set_conv_nth)
    let ?t = "(x, fl_neg (case crowding_distance (?fronts ! k) objs x of None \<Rightarrow> Fin 0 | Some v \<Rightarrow> v), 1 + k)"
    have "?t \<in> set ?order" using mem [of ?t] k by auto
    then show ?thesis by blast
  qed
  have "i \<in> set (concat F)" using inF i by blast
  then have "i \<in> set (concat ?fronts)" by simp
  then have ei: "\<exists>ci ri. (i, ci, ri) \<in> set ?order" by (rule ex)
  have "j \<in> set (concat I)" using inI j by blast
  then have "j \<in> set (concat ?fronts)" by simp
  then have ej: "\<exists>cj rj. (j, cj, rj) \<in> set ?order" by (rule ex)
  have lt: "ri < rj" if ti: "(i, ci, ri) \<in> set ?order" and tj: "(j, cj, rj) \<in> set ?order" for ci ri cj rj
  proof -
    obtain a where a: "a < length ?fronts" "i \<in> set (?fronts ! a)" "ri = 1 + a"
      using mem [of "(i, ci, ri)"] ti by auto
    obtain b where b: "b < length ?fronts" "j \<in> set (?fronts ! b)" "rj = 1 + b"
      using mem [of "(j, cj, rj)"] tj by auto
    have "a < length F"
    proof (rule ccontr)
      assume "\<not> a < length F"
      then have "?fronts ! a = I ! (a - length F)" "a - length F < length I"
        using a(1) by (simp_all add: nth_append)
      then have "i \<in> set (concat I)" using a(2) by (metis nth_mem set_concat UN_I)
      then show False using inI i by auto
    qed
    moreover have "\<not> b < length F"
    proof
      assume "b < length F"
      then have "?fronts ! b = F ! b" by (simp add: nth_append)
      then have "j \<in> set (concat F)" using b(2) \<open>b < length F\<close> by (metis nth_mem set_concat UN_I)
      then show False using inF j by auto
    qed
    ultimately show ?thesis using a(3) b(3) by simp
  qed
  show ?thesis using FI(1) F I o ei ej lt by blast
qed

theorem feasible_ranked_before_infeasible_witness:
  "length [0, 10 :: real] = length [[0, 2], [2, 0 :: real]]
   \<and> list_all (\<lambda>v. length v = 2) [[0, 2], [2, 0 :: real]]
   \<and> (0 :: nat) < length [[0, 2], [2, 0 :: real]] \<and> [0, 10 :: real] ! 0 \<le> 0
   \<and> (1 :: nat) < length [[0, 2], [2, 0 :: real]] \<and> [0, 10 :: real] ! 1 > 0
   \<and> (\<exists>F I order. nsga_order_fronts [[0, 2], [2, 0]] [0, 10] = Some (F @ I)
      \<and> (\<forall>f\<in>set F. \<forall>p\<in>set f. [0, 10 :: real] ! p \<le> 0)
      \<and> (\<forall>f\<in>set I. \<forall>p\<in>set f. [0, 10 :: real] ! p > 0)
      \<and> nsga_order [[0, 2], [2, 0]] [0, 10] = Some order
      \<and> (\<exists>ci ri. (0, ci, ri) \<in> set order) \<and> (\<exists>cj rj. (1, cj, rj) \<in> set order)
      \<and> (\<forall>ci ri cj rj. (0, ci, ri) \<in> set order \<longrightarrow> (1, cj, rj) \<in> set order \<longrightarrow> ri < rj))"
proof (intro conjI)
  show "\<exists>F I order. nsga_order_fronts [[0, 2], [2, 0]] [0, 10] = Some (F @ I)
      \<and> (\<forall>f\<in>set F. \<forall>p\<in>set f. [0, 10 :: real] ! p \<le> 0)
      \<and> (\<forall>f\<in>set I. \<forall>p\<in>set f. [0, 10 :: real] ! p > 0)
      \<and> nsga_order [[0, 2], [2, 0]] [0, 10] = Some order
      \<and> (\<exists>ci ri. (0, ci, ri) \<in> set order) \<and> (\<exists>cj rj. (1, cj, rj) \<in> set order)
      \<and> (\<forall>ci ri cj rj. (0, ci, ri) \<in> set order \<longrightarrow> (1, cj, rj) \<in> set order \<longrightarrow> ri < rj)"
    by (rule feasible_ranked_before_infeasible [where m = 2]) simp_all
qed simp_all

lemma s_fitness_cases:
  "s_fitness (normalize_statuses r) = ''Valid'' \<or> s_fitness (normalize_statuses r) = ''Expired''
   \<or> s_fitness (normalize_statuses r) = ''Conditional''"
  by (simp add: normalize_statuses_def Let_def)

lemma s_cleaning_cases:
  "s_cleaning (normalize_statuses r) = ''Complete'' \<or> s_cleaning (normalize_statuses r) = ''Partial''
   \<or> s_cleaning (normalize_statuses r) = ''Pending''"
  by (simp add: normalize_statuses_def Let_def)

lemma norm_text_status [simp]:
  "norm_text (Some ''Valid'') = ''valid''"
  "norm_text (Some ''Expired'') = ''expired''"
  "norm_text (Some ''Conditional'') = ''conditional''"
  "norm_text (Some ''Complete'') = ''complete''"
  "norm_text (Some ''Partial'') = ''partial''"
  "norm_text (Some ''Pending'') = ''pending''"
  by (simp_all add: norm_text_def strip_def lower_def lower_char_def is_space_def)

lemma map_row_Inr:
  assumes "map_row_to_objectives r avg = Inr (objs, ex, pen, al)"
  shows "e_fitness ex = s_fitness (normalize_statuses r)"
    and "e_cleaning_status ex = s_cleaning (normalize_statuses r)"
    and "fitness_invalid al = (let t = norm_text (Some (s_fitness (normalize_statuses r))) in contains ''invalid'' t \<or> contains ''expired'' t \<or> contains ''revoked'' t)"
    and "cleaning_pending al = contains ''pending'' (norm_text (Some (s_cleaning (normalize_statuses r))))"
    and "cleaning_partial al = contains ''partial'' (norm_text (Some (s_cleaning (normalize_statuses r))))"
    and "length objs = 6"
    and "pen = (if fitness_invalid al then 10 else 0)"
proof -
  obtain mil where m: "float_or_zero (mileage r) = Inr mil"
    using assms by (cases "float_or_zero (mileage r)") (simp_all add: map_row_to_objectives_def Let_def)
  have eq: "Inr (objs, ex, pen, al) = map_row_to_objectives r avg"
    using assms by simp
  have "ex = fst (snd (projr (map_row_to_objectives r avg)))" "al = snd (snd (snd (projr (map_row_to_objectives r avg))))"
    "objs = fst (projr (map_row_to_objectives r avg))" "pen = fst (snd (snd (projr (map_row_to_objectives r avg))))"
    unfolding eq [symmetric] by simp_all
  then show "e_fitness ex = s_fitness (normalize_statuses r)"
    and "e_cleaning_status ex = s_cleaning (normalize_statuses r)"
    and "fitness_invalid al = (let t = norm_text (Some (s_fitness (normalize_statuses r))) in contains ''invalid'' t \<or> contains ''expired'' t \<or> contains ''revoked'' t)"
    and "cleaning_pending al = contains ''pending'' (norm_text (Some (s_cleaning (normalize_statuses r))))"
    and "cleaning_partial al = contains ''partial'' (norm_text (Some (s_cleaning (normalize_statuses r))))"
    and "length objs = 6"
    and "pen = (if fitness_invalid al then 10 else 0)"
    by (simp_all add: map_row_to_objectives_def Let_def m)
qed

lemma row_category:
  assumes "map_row_to_objectives r avg = Inr (objs, ex, pen, al)"
  shows "induction_category al =
     (if e_fitness ex = ''Expired'' then ''Inspection Bay Hold''
      else if e_cleaning_status ex = ''Pending'' \<or> e_cleaning_status ex = ''Partial'' then ''Cleaning/Detailing''
      else ''Revenue Service'')"
  using s_fitness_cases [of r] s_cleaning_cases [of r]
  unfolding induction_category_def map_row_Inr [OF assms]
  by (elim disjE) (simp_all add: Let_def)

section \<open>Fronts and dominance\<close>

text \<open>
  C4. The claim: every front is an antichain of the dominance order on the weighted vectors, and
  every candidate of front \<open>k + 1\<close> is dominated by a candidate of the fronts before it. The
  first half holds. The second holds inside the feasible fronts and inside the infeasible ones;
  the first infeasible front follows the last feasible one by the feasibility split alone, and
  its candidates need not be dominated by anyone (\<open>first_infeasible_front_not_dominated\<close>).
  As amended: every candidate of front \<open>k + 1\<close> is dominated by a candidate of front \<open>k\<close>, or it is
  infeasible and front \<open>k\<close> holds feasible candidates only.
\<close>

theorem fronts_antichains_chained:
  assumes len: "length pens = length objs"
  shows "\<exists>fronts. nsga_order_fronts objs pens = Some fronts
     \<and> (\<forall>f\<in>set fronts. \<forall>p\<in>set f. \<forall>q\<in>set f. \<not> dominates (objs ! p) (objs ! q))
     \<and> (\<forall>k. Suc k < length fronts \<longrightarrow> (\<forall>q\<in>set (fronts ! Suc k).
           (\<exists>p\<in>set (fronts ! k). dominates (objs ! p) (objs ! q))
           \<or> (0 < pens ! q \<and> (\<forall>p\<in>set (fronts ! k). pens ! p \<le> 0))))"
proof -
  let ?feas = "filter (\<lambda>i. pens ! i \<le> 0) [0..<length pens]"
  let ?inf = "filter (\<lambda>i. pens ! i > 0) [0..<length pens]"
  obtain F I where FI: "nsga_order_fronts objs pens = Some (F @ I)"
      "fronts_of objs ?feas F" "fronts_of objs ?inf I"
    using nsga_order_fronts_split [of objs pens] by blast
  have aF: "\<forall>f\<in>set F. \<forall>p\<in>set f. \<forall>q\<in>set f. \<not> dominates (objs ! p) (objs ! q)"
    and aI: "\<forall>f\<in>set I. \<forall>p\<in>set f. \<forall>q\<in>set f. \<not> dominates (objs ! p) (objs ! q)"
    and cF: "\<forall>k. Suc k < length F \<longrightarrow> (\<forall>q\<in>set (F ! Suc k). \<exists>p\<in>set (F ! k). dominates (objs ! p) (objs ! q))"
    and cI: "\<forall>k. Suc k < length I \<longrightarrow> (\<forall>q\<in>set (I ! Suc k). \<exists>p\<in>set (I ! k). dominates (objs ! p) (objs ! q))"
    and sF: "set (concat F) \<subseteq> set ?feas" and sI: "set (concat I) \<subseteq> set ?inf"
    using FI(2,3) unfolding fronts_of_def by blast+
  have feasF: "pens ! p \<le> 0" if "k < length F" "p \<in> set (F ! k)" for k p
  proof -
    have "p \<in> set (concat F)" using that by (metis nth_mem set_concat UN_I)
    then show ?thesis using sF by auto
  qed
  have infI: "0 < pens ! q" if "k < length I" "q \<in> set (I ! k)" for k q
  proof -
    have "q \<in> set (concat I)" using that by (metis nth_mem set_concat UN_I)
    then show ?thesis using sI by auto
  qed
  have anti: "\<forall>f\<in>set (F @ I). \<forall>p\<in>set f. \<forall>q\<in>set f. \<not> dominates (objs ! p) (objs ! q)"
    using aF aI by auto
  have chain: "\<forall>k. Suc k < length (F @ I) \<longrightarrow> (\<forall>q\<in>set ((F @ I) ! Suc k).
           (\<exists>p\<in>set ((F @ I) ! k). dominates (objs ! p) (objs ! q))
           \<or> (0 < pens ! q \<and> (\<forall>p\<in>set ((F @ I) ! k). pens ! p \<le> 0)))"
  proof (intro allI impI ballI)
    fix k q assume k: "Suc k < length (F @ I)" and q: "q \<in> set ((F @ I) ! Suc k)"
    consider (inF) "Suc k < length F" | (border) "Suc k = length F" | (inI) "length F < Suc k"
      by linarith
    then show "(\<exists>p\<in>set ((F @ I) ! k). dominates (objs ! p) (objs ! q))
           \<or> (0 < pens ! q \<and> (\<forall>p\<in>set ((F @ I) ! k). pens ! p \<le> 0))"
    proof cases
      case inF
      then have "(F @ I) ! Suc k = F ! Suc k" "(F @ I) ! k = F ! k" by (simp_all add: nth_append)
      then show ?thesis using cF inF q by auto
    next
      case border
      then have e: "(F @ I) ! Suc k = I ! 0" "(F @ I) ! k = F ! k" "k < length F" "0 < length I"
        using k by (simp_all add: nth_append)
      have "0 < pens ! q" using infI [of 0 q] e q by simp
      moreover have "\<forall>p\<in>set ((F @ I) ! k). pens ! p \<le> 0" using feasF [of k] e by simp
      ultimately show ?thesis by blast
    next
      case inI
      then obtain k' where k': "k = length F + k'" by (metis less_Suc_eq_le le_iff_add)
      then have e: "(F @ I) ! Suc k = I ! Suc k'" "(F @ I) ! k = I ! k'" "Suc k' < length I"
        using k by (simp_all add: nth_append)
      then show ?thesis using cI q by auto
    qed
  qed
  show ?thesis using FI(1) anti chain by blast
qed

theorem fronts_antichains_chained_witness:
  "length [0, 10 :: real] = length [[0, 2, 0, 0, 0, 0], [5, 0, 0, 0, 0, 0 :: real]]
   \<and> (\<exists>fronts. nsga_order_fronts [[0, 2, 0, 0, 0, 0], [5, 0, 0, 0, 0, 0]] [0, 10] = Some fronts
     \<and> (\<forall>f\<in>set fronts. \<forall>p\<in>set f. \<forall>q\<in>set f.
           \<not> dominates ([[0, 2, 0, 0, 0, 0], [5, 0, 0, 0, 0, 0]] ! p) ([[0, 2, 0, 0, 0, 0], [5, 0, 0, 0, 0, 0]] ! q))
     \<and> (\<forall>k. Suc k < length fronts \<longrightarrow> (\<forall>q\<in>set (fronts ! Suc k).
           (\<exists>p\<in>set (fronts ! k). dominates ([[0, 2, 0, 0, 0, 0], [5, 0, 0, 0, 0, 0]] ! p) ([[0, 2, 0, 0, 0, 0], [5, 0, 0, 0, 0, 0]] ! q))
           \<or> (0 < [0, 10 :: real] ! q \<and> (\<forall>p\<in>set (fronts ! k). [0, 10 :: real] ! p \<le> 0)))))"
proof (intro conjI)
  show "length [0, 10 :: real] = length [[0, 2, 0, 0, 0, 0], [5, 0, 0, 0, 0, 0 :: real]]" by simp
  show "\<exists>fronts. nsga_order_fronts [[0, 2, 0, 0, 0, 0], [5, 0, 0, 0, 0, 0]] [0, 10] = Some fronts
     \<and> (\<forall>f\<in>set fronts. \<forall>p\<in>set f. \<forall>q\<in>set f.
           \<not> dominates ([[0, 2, 0, 0, 0, 0], [5, 0, 0, 0, 0, 0]] ! p) ([[0, 2, 0, 0, 0, 0], [5, 0, 0, 0, 0, 0]] ! q))
     \<and> (\<forall>k. Suc k < length fronts \<longrightarrow> (\<forall>q\<in>set (fronts ! Suc k).
           (\<exists>p\<in>set (fronts ! k). dominates ([[0, 2, 0, 0, 0, 0], [5, 0, 0, 0, 0, 0]] ! p) ([[0, 2, 0, 0, 0, 0], [5, 0, 0, 0, 0, 0]] ! q))
           \<or> (0 < [0, 10 :: real] ! q \<and> (\<forall>p\<in>set (fronts ! k). [0, 10 :: real] ! p \<le> 0))))"
    by (rule fronts_antichains_chained) simp
qed

theorem first_infeasible_front_not_dominated:
  "nsga_order_fronts [[0, 2, 0, 0, 0, 0], [5, 0, 0, 0, 0, 0]] [0, 10] = Some [[0], [1]]
   \<and> \<not> dominates ([[0, 2, 0, 0, 0, 0], [5, 0, 0, 0, 0, 0]] ! 0) ([[0, 2, 0, 0, 0, 0], [5, 0, 0, 0, 0, 0]] ! 1)"
  by code_simp

section \<open>The endpoint returns\<close>


lemma collect_Inl:
  assumes "Inl e \<in> set xs" "\<forall>x\<in>set xs. \<forall>e'. x = Inl e' \<longrightarrow> e' = e"
  shows "collect xs = Inl e"
  using assms
proof (induction xs)
  case Nil
  then show ?case by simp
next
  case (Cons x xs)
  show ?case
  proof (cases x)
    case (Inl e')
    have "e' = e" using Cons.prems(2) Inl by simp
    then show ?thesis using Inl by simp
  next
    case (Inr v)
    have "Inl e \<in> set xs" using Cons.prems(1) Inr by auto
    moreover have "\<forall>x\<in>set xs. \<forall>e'. x = Inl e' \<longrightarrow> e' = e" using Cons.prems(2) by simp
    ultimately have "collect xs = Inl e" by (rule Cons.IH)
    then show ?thesis using Inr by simp
  qed
qed











lemma then_sum_Inr: "then_sum x f = Inr y \<longleftrightarrow> (\<exists>v. x = Inr v \<and> f v = Inr y)"
  by (cases x) (simp_all add: then_sum_def)

lemma column_Inr: "column r key = Inr v \<longleftrightarrow> r key = Some v"
  by (cases "r key") (simp_all add: column_def)

lemma number_Inr: "number parse v = Inr n \<longleftrightarrow> (\<exists>s. v = Some s \<and> parse s = Some n)"
  by (cases v) (auto simp: number_def split: option.splits)



lemma train_category_hold:
  "train_category thresholds t = ''Inspection Bay: Maintenance'' \<longleftrightarrow>
     \<not> ti_fitness_valid t \<and> ti_open_work_orders t \<ge> maintenance_open_work_orders_threshold thresholds"
  by (simp add: train_category_def Let_def)

lemma classify_row_hold:
  "classify_row raw = ''IBL'' \<longleftrightarrow>
     (contains ''invalid'' (lower (str_get raw ''fitness''))
        \<or> contains ''expired'' (lower (str_get raw ''fitness''))
        \<or> contains ''revoked'' (lower (str_get raw ''fitness'')))
     \<and> list_ex (\<lambda>k. contains k (lower (str_get raw ''job_cards''))) [''critical'', ''major'', ''open'']"
  by (simp add: classify_row_def Let_def)

section \<open>The disposition category\<close>

text \<open>
  C2. The claim: the hold category needs an invalid fitness state and an open job-card state;
  otherwise the cleaning state decides between ``Cleaning/Detailing'' and ``Revenue Service''.
  The classifiers keep the first rule as the claim has it: \<^verbatim>\<open>classify_row\<close> holds a row on
  invalid fitness and open job cards (\<open>classify_row_hold\<close>), \<^verbatim>\<open>classify\<close> holds a train on
  invalid fitness and open work orders at the threshold (\<open>train_category_hold\<close>).
  \<^verbatim>\<open>rank_endpoint\<close> does not: its local \<^verbatim>\<open>category\<close> is ``Inspection Bay Hold'' on the fitness
  alert alone (\<open>row_category\<close>). For the train with expired fitness, closed job cards and
  complete cleaning, the endpoint computes ``Inspection Bay Hold'', where the rule of the claim
  (\<open>spec_category\<close>) and \<^verbatim>\<open>classify_row\<close> say ``Revenue Service'' and \<^verbatim>\<open>classify\<close>, with the
  default thresholds, says ``Revenue Service (Monitor)''.
\<close>

theorem expired_fitness_alone_holds_the_train:
  "map_option (map_sum id (map snd)) (rank_endpoint [expired_row] Map.empty)
     = Some (Inr [''Inspection Bay Hold''])
   \<and> spec_category (normalize_statuses expired_row) = ''Revenue Service''
   \<and> classify_row expired_raw_row = ''Revenue Service''
   \<and> map snd (classify [\<lparr>train = expired_train, tc_rank = Some 1, tc_crowding_distance = PosInf\<rparr>]
               default_thresholds) = [''Revenue Service (Monitor)'']"
proof (intro conjI)
  show "map_option (map_sum id (map snd)) (rank_endpoint [expired_row] Map.empty)
     = Some (Inr [''Inspection Bay Hold''])"
    by code_simp
  show "spec_category (normalize_statuses expired_row) = ''Revenue Service''"
    by code_simp
  show "classify_row expired_raw_row = ''Revenue Service''"
    by code_simp
  show "map snd (classify [\<lparr>train = expired_train, tc_rank = Some 1, tc_crowding_distance = PosInf\<rparr>]
               default_thresholds) = [''Revenue Service (Monitor)'']"
    by (simp add: classify_def train_category_def expired_train_def default_thresholds_def)
qed

section \<open>Rows without a usable mileage\<close>




section \<open>Crowding distance at the boundary of a front\<close>

lemma fold_keeps_inf:
  assumes "d i = Some PosInf"
  shows "fold (\<lambda>j d. d(s j := map_option (\<lambda>v. fl_add v (g j)) (d (s j)))) js d i = Some PosInf"
  using assms
proof (induction js arbitrary: d)
  case Nil
  then show ?case by simp
next
  case (Cons a js)
  have "(d(s a := map_option (\<lambda>v. fl_add v (g a)) (d (s a)))) i = Some PosInf"
    using Cons.prems by (cases "s a = i") simp_all
  then show ?case using Cons.IH by simp
qed

lemma crowding_dim_keeps_inf:
  assumes "d i = Some PosInf"
  shows "crowding_dim front pop k d i = Some PosInf"
proof -
  let ?s = "sort_key (\<lambda>i. pop ! i ! k) front"
  let ?d2 = "d(hd ?s \<mapsto> PosInf, last ?s \<mapsto> PosInf)"
  have "?d2 i = Some PosInf" using assms by simp
  then show ?thesis
    unfolding crowding_dim_def Let_def
    by (simp add: fold_keeps_inf [where s = "\<lambda>j. ?s ! j"])
qed

lemma crowding_dim_boundary:
  "crowding_dim front pop k d (hd (sort_key (\<lambda>i. pop ! i ! k) front)) = Some PosInf"
  "crowding_dim front pop k d (last (sort_key (\<lambda>i. pop ! i ! k) front)) = Some PosInf"
proof -
  let ?s = "sort_key (\<lambda>i. pop ! i ! k) front"
  let ?d2 = "d(hd ?s \<mapsto> PosInf, last ?s \<mapsto> PosInf)"
  have "?d2 (hd ?s) = Some PosInf" "?d2 (last ?s) = Some PosInf" by simp_all
  then show "crowding_dim front pop k d (hd ?s) = Some PosInf"
    "crowding_dim front pop k d (last ?s) = Some PosInf"
    unfolding crowding_dim_def Let_def
    by (simp_all add: fold_keeps_inf [where s = "\<lambda>j. ?s ! j"])
qed

lemma fold_crowding_keeps_inf:
  assumes "d i = Some PosInf"
  shows "fold (crowding_dim front pop) ks d i = Some PosInf"
  using assms by (induction ks arbitrary: d) (simp_all add: crowding_dim_keeps_inf)

lemma fold_crowding_boundary:
  assumes "k \<in> set ks"
  shows "fold (crowding_dim front pop) ks d (hd (sort_key (\<lambda>i. pop ! i ! k) front)) = Some PosInf"
    and "fold (crowding_dim front pop) ks d (last (sort_key (\<lambda>i. pop ! i ! k) front)) = Some PosInf"
proof -
  obtain ks1 ks2 where ks: "ks = ks1 @ k # ks2" using assms by (meson split_list)
  let ?d1 = "fold (crowding_dim front pop) ks1 d"
  have e: "fold (crowding_dim front pop) ks d = fold (crowding_dim front pop) ks2 (crowding_dim front pop k ?d1)"
    by (simp add: ks)
  show "fold (crowding_dim front pop) ks d (hd (sort_key (\<lambda>i. pop ! i ! k) front)) = Some PosInf"
    unfolding e by (rule fold_crowding_keeps_inf) (rule crowding_dim_boundary)
  show "fold (crowding_dim front pop) ks d (last (sort_key (\<lambda>i. pop ! i ! k) front)) = Some PosInf"
    unfolding e by (rule fold_crowding_keeps_inf) (rule crowding_dim_boundary)
qed

lemma crowding_distance_boundary:
  assumes "front \<noteq> []" "k < length (pop ! 0)"
  shows "crowding_distance front pop (hd (sort_key (\<lambda>i. pop ! i ! k) front)) = Some PosInf"
    and "crowding_distance front pop (last (sort_key (\<lambda>i. pop ! i ! k) front)) = Some PosInf"
  using assms by (simp_all add: crowding_distance_def Let_def fold_crowding_boundary)

lemma hd_filter_hd: "xs \<noteq> [] \<Longrightarrow> P (hd xs) \<Longrightarrow> hd (filter P xs) = hd xs"
  by (cases xs) simp_all

lemma last_filter_last: "xs \<noteq> [] \<Longrightarrow> P (last xs) \<Longrightarrow> last (filter P xs) = last xs"
  by (induction xs) (auto simp: filter_empty_conv)

lemma hd_sort_key:
  assumes "xs \<noteq> []"
  shows "hd (sort_key f xs) = hd (filter (\<lambda>x. f x = Min (f ` set xs)) xs)"
proof -
  let ?s = "sort_key f xs"
  have ne: "?s \<noteq> []" using assms by (metis length_0_conv length_sort)
  have srt: "sorted (map f ?s)" by (rule sorted_sort_key)
  have "hd ?s \<in> set ?s" using ne by (rule hd_in_set)
  then have mem: "f (hd ?s) \<in> f ` set xs" by simp
  have le: "f (hd ?s) \<le> f y" if "y \<in> set xs" for y
  proof -
    have "y \<in> set ?s" using that by simp
    then obtain j where j: "j < length ?s" "?s ! j = y" by (meson in_set_conv_nth)
    have pos: "0 < length ?s" using assms by simp
    have "map f ?s ! 0 \<le> map f ?s ! j" using srt j(1) by (intro sorted_nth_mono) simp_all
    then have "f (?s ! 0) \<le> f (?s ! j)" using j(1) pos by (simp only: nth_map)
    then show ?thesis using j(2) hd_conv_nth [OF ne] by simp
  qed
  have "Min (f ` set xs) = f (hd ?s)"
    using mem le by (intro Min_eqI) auto
  then have "hd ?s = hd (filter (\<lambda>x. f x = Min (f ` set xs)) ?s)"
    using ne by (simp add: hd_filter_hd)
  then show ?thesis by (simp add: sort_key_stable)
qed

lemma last_sort_key:
  assumes "xs \<noteq> []"
  shows "last (sort_key f xs) = last (filter (\<lambda>x. f x = Max (f ` set xs)) xs)"
proof -
  let ?s = "sort_key f xs"
  have ne: "?s \<noteq> []" using assms by (metis length_0_conv length_sort)
  have srt: "sorted (map f ?s)" by (rule sorted_sort_key)
  have "last ?s \<in> set ?s" using ne by (rule last_in_set)
  then have mem: "f (last ?s) \<in> f ` set xs" by simp
  have le: "f y \<le> f (last ?s)" if "y \<in> set xs" for y
  proof -
    have "y \<in> set ?s" using that by simp
    then obtain j where j: "j < length ?s" "?s ! j = y" by (meson in_set_conv_nth)
    have pos: "length ?s - 1 < length ?s" using assms by simp
    have "map f ?s ! j \<le> map f ?s ! (length ?s - 1)"
      using srt j(1) by (intro sorted_nth_mono) simp_all
    then have "f (?s ! j) \<le> f (?s ! (length ?s - 1))" using j(1) pos by (simp only: nth_map)
    then show ?thesis using j(2) last_conv_nth [OF ne] by simp
  qed
  have "Max (f ` set xs) = f (last ?s)"
    using mem le by (intro Max_eqI) auto
  then have "last ?s = last (filter (\<lambda>x. f x = Max (f ` set xs)) ?s)"
    using ne by (simp add: last_filter_last)
  then show ?thesis by (simp add: sort_key_stable)
qed

lemma unique_min_holder:
  assumes i: "i \<in> set front" and u: "\<forall>j\<in>set front. j \<noteq> i \<longrightarrow> f i < (f j :: real)"
  shows "hd (filter (\<lambda>x. f x = Min (f ` set front)) front) = i"
proof -
  have "Min (f ` set front) = f i"
  proof (rule Min_eqI)
    show "finite (f ` set front)" by simp
    show "f i \<in> f ` set front" using i by simp
    fix y assume "y \<in> f ` set front"
    then obtain j where "j \<in> set front" "y = f j" by auto
    then show "f i \<le> y" using u by (cases "j = i") auto
  qed
  then have all: "\<forall>x\<in>set (filter (\<lambda>x. f x = Min (f ` set front)) front). x = i"
    using u by auto
  have "i \<in> set (filter (\<lambda>x. f x = Min (f ` set front)) front)"
    using i \<open>Min (f ` set front) = f i\<close> by simp
  then have "filter (\<lambda>x. f x = Min (f ` set front)) front \<noteq> []" by (metis empty_iff empty_set)
  then have "hd (filter (\<lambda>x. f x = Min (f ` set front)) front) \<in> set (filter (\<lambda>x. f x = Min (f ` set front)) front)"
    by (rule hd_in_set)
  then show ?thesis using all by blast
qed

lemma unique_max_holder:
  assumes i: "i \<in> set front" and u: "\<forall>j\<in>set front. j \<noteq> i \<longrightarrow> f j < (f i :: real)"
  shows "last (filter (\<lambda>x. f x = Max (f ` set front)) front) = i"
proof -
  have "Max (f ` set front) = f i"
  proof (rule Max_eqI)
    show "finite (f ` set front)" by simp
    show "f i \<in> f ` set front" using i by simp
    fix y assume "y \<in> f ` set front"
    then obtain j where "j \<in> set front" "y = f j" by auto
    then show "y \<le> f i" using u by (cases "j = i") auto
  qed
  then have all: "\<forall>x\<in>set (filter (\<lambda>x. f x = Max (f ` set front)) front). x = i"
    using u by auto
  have "i \<in> set (filter (\<lambda>x. f x = Max (f ` set front)) front)"
    using i \<open>Max (f ` set front) = f i\<close> by simp
  then have "filter (\<lambda>x. f x = Max (f ` set front)) front \<noteq> []" by (metis empty_iff empty_set)
  then have "last (filter (\<lambda>x. f x = Max (f ` set front)) front) \<in> set (filter (\<lambda>x. f x = Max (f ` set front)) front)"
    by (rule last_in_set)
  then show ?thesis using all by blast
qed

lemma single_sort: "non_dominated_sort [v] = Some [[0]]"
proof -
  have dc: "dom_counts [v] = ([[]], [0])" by (simp add: dom_counts_eq)
  have pf: "peel_front [[]] [0] [0] = ([0], [])" by (simp add: peel_front_def)
  have "peel_loop [[]] [0] [0] [[0]] = peel_loop [[]] [0] [] [[0]]"
    by (subst peel_loop.simps) (simp add: pf)
  also have "\<dots> = Some [[0]]" by (subst peel_loop.simps) simp
  finally show ?thesis by (simp add: non_dominated_sort_def dc)
qed

lemma single_candidate:
  assumes "0 < length v"
  shows "nsga_order [v] [p] = Some [(0, NegInf, 1)]"
proof -
  have fr: "nsga_order_fronts [v] [p] = Some [[0]]"
    by (cases "p \<le> 0") (simp_all add: nsga_order_fronts_def single_sort)
  have "crowding_distance [0] [v] (hd (sort_key (\<lambda>i. [v] ! i ! 0) [0])) = Some PosInf"
    by (rule crowding_distance_boundary) (use assms in simp_all)
  then have cd: "crowding_distance [0] [v] 0 = Some PosInf" by simp
  show ?thesis by (simp add: nsga_order_def fr cd)
qed

text \<open>
  C6. The claim: in every front and for each objective, the members that hold the minimum and
  the maximum value get crowding distance infinity. \<^verbatim>\<open>_crowding_distance\<close> marks the first and
  the last member of the front as sorted (stably) by that objective. When several members hold
  the minimum, only the first of them in the front's order is marked, and only the last of those
  that hold the maximum: of three equal candidates the middle one keeps distance 0
  (\<open>tied_minimum_holder_gets_zero\<close>). As amended: the first member of the front that holds the
  minimum and the last that holds the maximum get infinity; so does a member that holds the
  minimum, or the maximum, alone; and a population of one candidate (with at least one
  objective) gets rank 1 and distance infinity.
\<close>

theorem boundary_members_get_infinity:
  assumes "front \<noteq> []" and "k < length (pop ! 0)"
  shows "crowding_distance front pop
           (hd (filter (\<lambda>i. pop ! i ! k = Min ((\<lambda>i. pop ! i ! k) ` set front)) front)) = Some PosInf
     \<and> crowding_distance front pop
           (last (filter (\<lambda>i. pop ! i ! k = Max ((\<lambda>i. pop ! i ! k) ` set front)) front)) = Some PosInf
     \<and> (\<forall>i\<in>set front. (\<forall>j\<in>set front. j \<noteq> i \<longrightarrow> pop ! i ! k < pop ! j ! k)
            \<longrightarrow> crowding_distance front pop i = Some PosInf)
     \<and> (\<forall>i\<in>set front. (\<forall>j\<in>set front. j \<noteq> i \<longrightarrow> pop ! j ! k < pop ! i ! k)
            \<longrightarrow> crowding_distance front pop i = Some PosInf)
     \<and> (\<forall>v p. 0 < length v \<longrightarrow> nsga_order [v] [p] = Some [(0, NegInf, 1)])"
proof -
  let ?f = "\<lambda>i. pop ! i ! k"
  have lo: "crowding_distance front pop (hd (filter (\<lambda>i. ?f i = Min (?f ` set front)) front)) = Some PosInf"
    using crowding_distance_boundary(1) [OF assms] hd_sort_key [OF assms(1), of ?f] by simp
  have hi: "crowding_distance front pop (last (filter (\<lambda>i. ?f i = Max (?f ` set front)) front)) = Some PosInf"
    using crowding_distance_boundary(2) [OF assms] last_sort_key [OF assms(1), of ?f] by simp
  have umin: "crowding_distance front pop i = Some PosInf"
    if "i \<in> set front" "\<forall>j\<in>set front. j \<noteq> i \<longrightarrow> ?f i < ?f j" for i
    using lo unique_min_holder [of i front ?f] that by simp
  have umax: "crowding_distance front pop i = Some PosInf"
    if "i \<in> set front" "\<forall>j\<in>set front. j \<noteq> i \<longrightarrow> ?f j < ?f i" for i
    using hi unique_max_holder [of i front ?f] that by simp
  show ?thesis using lo hi umin umax single_candidate by blast
qed

theorem boundary_members_get_infinity_witness:
  "[0, 1, 2 :: nat] \<noteq> [] \<and> (1 :: nat) < length ([[0, 1, 3 / 4], [0, 0, 3 / 2], [0, 2, 0 :: real]] ! 0)
   \<and> crowding_distance [0, 1, 2] [[0, 1, 3 / 4], [0, 0, 3 / 2], [0, 2, 0]] 1 = Some PosInf
   \<and> crowding_distance [0, 1, 2] [[0, 1, 3 / 4], [0, 0, 3 / 2], [0, 2, 0]] 2 = Some PosInf"
proof -
  let ?pop = "[[0, 1, 3 / 4], [0, 0, 3 / 2], [0, 2, 0 :: real]]"
  let ?f = "\<lambda>i. ?pop ! i ! 1"
  have h1: "[0, 1, 2 :: nat] \<noteq> []" by simp
  have h2: "(1 :: nat) < length (?pop ! 0)" by simp
  have mn: "Min (?f ` set [0, 1, 2]) = 0" and mx: "Max (?f ` set [0, 1, 2]) = 2" by simp_all
  have a: "hd (filter (\<lambda>i. ?f i = Min (?f ` set [0, 1, 2])) [0, 1, 2]) = 1"
    unfolding mn by simp
  have b: "last (filter (\<lambda>i. ?f i = Max (?f ` set [0, 1, 2])) [0, 1, 2]) = 2"
    unfolding mx by simp
  show ?thesis
    using boundary_members_get_infinity [OF h1 h2] h1 h2 unfolding a b by blast
qed

theorem tied_minimum_holder_gets_zero:
  "crowding_distance [0, 1, 2] [[0, 0, 0, 0, 0, 0], [0, 0, 0, 0, 0, 0], [0, 0, 0, 0, 0, 0]] 1 = Some (Fin 0)
   \<and> [[0, 0, 0, 0, 0, 0], [0, 0, 0, 0, 0, 0], [0, 0, 0, 0, 0, 0 :: real]] ! 1 ! 0
       = Min ((\<lambda>i. [[0, 0, 0, 0, 0, 0], [0, 0, 0, 0, 0, 0], [0, 0, 0, 0, 0, 0 :: real]] ! i ! 0) ` set [0, 1, 2])
   \<and> nsga_order [[0, 0, 0, 0, 0, 0], [0, 0, 0, 0, 0, 0], [0, 0, 0, 0, 0, 0]] [0, 0, 0]
       = Some [(0, NegInf, 1), (2, NegInf, 1), (1, Fin 0, 1)]"
  by code_simp

section \<open>Ties in the final order\<close>

text \<open>
  C5. The claim: candidates with equal rank and equal crowding distance keep their input order.
  \<^verbatim>\<open>order.sort\<close> is stable on the list \<^verbatim>\<open>order\<close>, which is in the order in which the fronts
  list their members. For \<open>tie_rows\<close> the second front is \<open>[3, 2]\<close>: \<open>T3\<close> and \<open>T2\<close> have rank 2
  and distance infinity, and \<open>T3\<close> comes out before \<open>T2\<close>.
\<close>

theorem tied_candidates_leave_input_order:
  "map_option (map_sum id (map (\<lambda>t. (ri_train_id (fst t), pareto_rank (fst t)))))
      (rank_endpoint tie_rows Map.empty)
     = Some (Inr [(Some ''T0'', 1), (Some ''T1'', 1), (Some ''T3'', 2), (Some ''T2'', 2)])
   \<and> nsga_order (apply_weights [[0, 0, 1 / 2, 0, 0, 0], [0, 1 / 2, 0, 0, 0, 0],
                                 [0, 1, 0, 0, 0, 0], [0, 0, 1, 0, 0, 0]] Map.empty) [0, 0, 0, 0]
     = Some [(0, NegInf, 1), (1, NegInf, 1), (3, NegInf, 2), (2, NegInf, 2)]"
  by code_simp

section \<open>Degenerate columns\<close>

lemma norm_vals_const:
  assumes "\<forall>v\<in>set vals. v = c"
  shows "norm_vals vals = map (\<lambda>_. 0) vals"
proof (cases "vals = []")
  case True
  then show ?thesis by (simp add: norm_vals_def)
next
  case False
  then have "set vals = {c}" using assms by (cases vals) auto
  then show ?thesis by (simp add: norm_vals_def Let_def)
qed

lemma zip_star_six:
  assumes "\<forall>v\<in>set objs. length v = 6" "objs \<noteq> []"
  shows "zip_star objs = map (\<lambda>k. map (\<lambda>v. v ! k) objs) [0..<6]"
proof -
  have "set (map length objs) = {6}" using assms by (cases objs) auto
  then show ?thesis using assms(2) by (simp add: zip_star_def)
qed

lemma apply_weights_degenerate:
  assumes dims: "\<forall>v\<in>set objs. length v = 6" and k: "k < 6" and col: "\<forall>v\<in>set objs. v ! k = c"
    and i: "i < length objs"
  shows "apply_weights objs weights ! i ! k = 0"
proof -
  have ne: "objs \<noteq> []" using i by auto
  let ?cols = "map norm_vals (zip_star objs)"
  have len: "length ?cols = 6" using zip_star_six [OF dims ne] by simp
  have "zip_star objs ! k = map (\<lambda>v. v ! k) objs"
    using zip_star_six [OF dims ne] k by simp
  then have "?cols ! k = norm_vals (map (\<lambda>v. v ! k) objs)"
    using k zip_star_six [OF dims ne] by simp
  also have "\<dots> = map (\<lambda>_. 0) (map (\<lambda>v. v ! k) objs)"
    using col by (intro norm_vals_const [where c = c]) auto
  finally have z: "?cols ! k ! i = 0" using i by simp
  define n where "n = map (\<lambda>k. ?cols ! k ! i) [0..<length ?cols]"
  have nk: "n ! k = 0" using z k len by (simp add: n_def)
  have row: "apply_weights objs weights ! i =
      [n ! 0 * weight_or weights ''fitness'' 5, n ! 1 * weight_or weights ''jobs'' 2,
       n ! 2 * weight_or weights ''branding'' (3 / 2), n ! 3 * weight_or weights ''mileage'' 1,
       n ! 4 * weight_or weights ''cleaning'' (5 / 4), n ! 5 * weight_or weights ''stabling'' (3 / 4)]"
    using i by (simp add: apply_weights_def Let_def n_def)
  consider "k = 0" | "k = 1" | "k = 2" | "k = 3" | "k = 4" | "k = 5" using k by linarith
  then show ?thesis
    by cases (use nk in \<open>simp_all add: row\<close>)
qed

lemma sort_key_same_key:
  assumes "\<forall>x\<in>set xs. f x = c"
  shows "sort_key f xs = xs"
proof (rule sort_key_id_if_sorted)
  show "sorted (map f xs)" using assms by (induction xs) auto
qed

lemma crowding_dim_degenerate:
  assumes ne: "front \<noteq> []" and col: "\<forall>i\<in>set front. pop ! i ! k = c"
  shows "crowding_dim front pop k d = d(hd front \<mapsto> PosInf, last front \<mapsto> PosInf)"
proof -
  have s: "sort_key (\<lambda>i. pop ! i ! k) front = front" using col by (rule sort_key_same_key)
  have "pop ! (hd front) ! k = c" "pop ! (last front) ! k = c" using ne col by simp_all
  then show ?thesis by (simp add: crowding_dim_def Let_def s)
qed

text \<open>
  C7. The claim: an objective on which all candidates agree adds zero to every normalised
  objective and zero to every crowding distance. The first half holds. In
  \<^verbatim>\<open>_crowding_distance\<close> the boundary members are set to infinity before the test
  \<^verbatim>\<open>span == 0\<close>: a degenerate objective adds no finite term, and it sets the first and the last
  member of the front to infinity (\<open>degenerate_column_marks_boundary\<close>: candidate 0 gets
  infinity from objective 0, where objectives 1 and 2 alone give it 2). As amended: every
  normalised and weighted value of a degenerate column is 0, and the step of the crowding
  distance for that objective changes nothing but the distances of the first and the last
  member of the front, which become infinity.
\<close>

theorem degenerate_column:
  assumes "\<forall>v\<in>set objs. length v = 6" and "k < 6" and "\<forall>v\<in>set objs. v ! k = c"
  shows "(\<forall>i<length objs. apply_weights objs weights ! i ! k = 0)
     \<and> (\<forall>front d. front \<noteq> [] \<and> set front \<subseteq> {..<length objs} \<longrightarrow>
           crowding_dim front (apply_weights objs weights) k d
             = d(hd front \<mapsto> PosInf, last front \<mapsto> PosInf))"
proof -
  have a: "\<forall>i<length objs. apply_weights objs weights ! i ! k = 0"
    using apply_weights_degenerate [OF assms] by blast
  have b: "crowding_dim front (apply_weights objs weights) k d = d(hd front \<mapsto> PosInf, last front \<mapsto> PosInf)"
    if "front \<noteq> []" "set front \<subseteq> {..<length objs}" for front d
  proof (rule crowding_dim_degenerate [where c = 0])
    show "front \<noteq> []" by (rule that(1))
    show "\<forall>i\<in>set front. apply_weights objs weights ! i ! k = 0" using a that(2) by auto
  qed
  show ?thesis using a b by blast
qed

theorem degenerate_column_witness:
  "list_all (\<lambda>v. length v = 6) [[0, 1, 1 / 2, 0, 0, 0], [0, 0, 1, 0, 0, 0 :: real]]
   \<and> (0 :: nat) < 6 \<and> list_all (\<lambda>v. v ! 0 = 0) [[0, 1, 1 / 2, 0, 0, 0], [0, 0, 1, 0, 0, 0 :: real]]
   \<and> apply_weights [[0, 1, 1 / 2, 0, 0, 0], [0, 0, 1, 0, 0, 0]] Map.empty ! 1 ! 0 = 0
   \<and> crowding_dim [0, 1] (apply_weights [[0, 1, 1 / 2, 0, 0, 0], [0, 0, 1, 0, 0, 0]] Map.empty) 0 Map.empty
        = [0 \<mapsto> PosInf, 1 \<mapsto> PosInf]"
proof -
  let ?objs = "[[0, 1, 1 / 2, 0, 0, 0], [0, 0, 1, 0, 0, 0 :: real]]"
  have h1: "\<forall>v\<in>set ?objs. length v = 6" by simp
  have h2: "(0 :: nat) < 6" by simp
  have h3: "\<forall>v\<in>set ?objs. v ! 0 = 0" by simp
  note t = degenerate_column [OF h1 h2 h3, of Map.empty]
  have a: "apply_weights ?objs Map.empty ! 1 ! 0 = 0" using t by simp
  have "[0, 1 :: nat] \<noteq> [] \<and> set [0, 1 :: nat] \<subseteq> {..<length ?objs}" by auto
  then have "crowding_dim [0, 1] (apply_weights ?objs Map.empty) 0 Map.empty
      = Map.empty(hd [0, 1 :: nat] \<mapsto> PosInf, last [0, 1 :: nat] \<mapsto> PosInf)"
    using t by blast
  then have b: "crowding_dim [0, 1] (apply_weights ?objs Map.empty) 0 Map.empty = [0 \<mapsto> PosInf, 1 \<mapsto> PosInf]"
    by simp
  show ?thesis using a b by simp
qed

theorem degenerate_column_marks_boundary:
  "crowding_dim [0, 1, 2] [[0, 1, 3 / 4, 0, 0, 0], [0, 0, 3 / 2, 0, 0, 0], [0, 2, 0, 0, 0, 0]] 0
       (\<lambda>i. if i \<in> set [0, 1, 2] then Some (Fin 0) else None) 0 = Some PosInf
   \<and> crowding_distance [0, 1, 2] [[0, 1, 3 / 4, 0, 0, 0], [0, 0, 3 / 2, 0, 0, 0], [0, 2, 0, 0, 0, 0]] 0
       = Some PosInf
   \<and> fold (crowding_dim [0, 1, 2] [[0, 1, 3 / 4, 0, 0, 0], [0, 0, 3 / 2, 0, 0, 0], [0, 2, 0, 0, 0, 0]])
        [1, 2] (\<lambda>i. if i \<in> set [0, 1, 2] then Some (Fin 0) else None) 0 = Some (Fin 2)"
  by code_simp

section \<open>The fitness rule of the objective mapper\<close>

text \<open>
  C1. The claim: a fitness text that contains ``expired'', ``invalid'' or ``revoked'' gets
  invalidity 1 and penalty 10. \<open>normalize_statuses\<close> tests for ``valid'' first, and ``invalid''
  contains ``valid'': the row whose fitness text is ``invalid'' is normalised to ``Valid'' and the
  mapper gives it invalidity 0, penalty 0 and no fitness alert.
\<close>

theorem invalid_text_is_mapped_as_valid:
  "map_row_to_objectives (good_row\<lparr>fitness := Some ''invalid''\<rparr>) 121000 =
     Inr ([0, 0, 0, 0, 0, 0],
          \<lparr>e_fitness = ''Valid'', e_job_card_status = ''Closed'', e_branding_priority = ''Low'',
            e_mileage = 121000, e_cleaning_status = ''Complete'', e_stabling_position = ''bay2'',
            e_updated_at = Some ''2025-09-19T13:57:53Z''\<rparr>,
          0,
          \<lparr>fitness_invalid = False, job_open = False, cleaning_pending = False,
            cleaning_partial = False, no_stabling = False\<rparr>)"
  by code_simp

section \<open>Rows without an identifier\<close>

text \<open>
  C9. The claim: a record without its identifier is refused with a validation error. The
  endpoint reads the identifier with \<^verbatim>\<open>base.get("train_id")\<close>: the row is ranked like any
  other and its result carries no identifier.
\<close>

theorem row_without_id_is_ranked:
  "rank_endpoint [good_row\<lparr>train_id := None\<rparr>] Map.empty =
     Some (Inr [(\<lparr>ri_train_id = None, pareto_rank = 1, fitness_certificate_status = ''Valid'',
                  job_card_status = ''Closed'', branding_priority = ''Low'', ri_mileage = 121000,
                  cleaning_status = ''Complete'', stabling_position = ''bay2'',
                  ri_updated_at = Some ''2025-09-19T13:57:53Z'',
                  ri_alerts = \<lparr>fitness_invalid = False, job_open = False, cleaning_pending = False,
                                cleaning_partial = False, no_stabling = False\<rparr>\<rparr>,
                ''Revenue Service'')])"
  by code_simp

section \<open>Further properties\<close>

text \<open>
  Dominance is irreflexive and asymmetric: no vector dominates itself, and two vectors never
  dominate each other.
\<close>

theorem dominance_is_strict:
  "\<not> dominates a a \<and> (dominates a b \<longrightarrow> \<not> dominates b a)"
  using dominates_irrefl dominates_asym by blast

theorem dominance_is_strict_witness:
  "dominates [0, 1] [1, 1 :: real] \<and> \<not> dominates [1, 1] [0, 1 :: real] \<and> \<not> dominates [0, 1] [0, 1 :: real]"
proof -
  have d: "dominates [0, 1] [1, 1 :: real]" by (simp add: dominates_def)
  have "\<not> dominates [0, 1] [0, 1 :: real]"
    using dominance_is_strict [of "[0, 1]" "[1, 1]"] by blast
  moreover have "\<not> dominates [1, 1] [0, 1 :: real]"
    using dominance_is_strict [of "[0, 1]" "[1, 1]"] d by blast
  ultimately show ?thesis using d by blast
qed

text \<open>
  \<^verbatim>\<open>_non_dominated_sort\<close> returns for every population. Its fronts are not empty, hold
  indices of the population, each at most once; no member of a front dominates another member
  of it; every member of a front after the first is dominated by a member of the front before;
  and when all vectors have one length every index is in a front.
\<close>

theorem sort_returns_fronts:
  "\<exists>fs. non_dominated_sort pop = Some fs
     \<and> distinct (concat fs) \<and> set (concat fs) \<subseteq> {..<length pop} \<and> [] \<notin> set fs
     \<and> (\<forall>f\<in>set fs. \<forall>p\<in>set f. \<forall>q\<in>set f. \<not> dominates (pop ! p) (pop ! q))
     \<and> (\<forall>k. Suc k < length fs \<longrightarrow> (\<forall>q\<in>set (fs ! Suc k). \<exists>p\<in>set (fs ! k). dominates (pop ! p) (pop ! q)))
     \<and> ((\<forall>v\<in>set pop. length v = m) \<longrightarrow> set (concat fs) = {..<length pop})"
  by (rule non_dominated_sort_fronts)

theorem sort_returns_fronts_witness:
  "non_dominated_sort [[0, 2], [2, 0], [3, 1], [1, 3]] = Some [[0, 1], [3, 2]]
   \<and> (\<exists>fs. non_dominated_sort [[0, 2], [2, 0], [3, 1], [1, 3]] = Some fs
       \<and> set (concat fs) = {..<length [[0, 2], [2, 0], [3, 1], [1, 3 :: real]]})"
proof -
  have "\<forall>v\<in>set [[0, 2], [2, 0], [3, 1], [1, 3 :: real]]. length v = 2" by simp
  then have "\<exists>fs. non_dominated_sort [[0, 2], [2, 0], [3, 1], [1, 3]] = Some fs
       \<and> set (concat fs) = {..<length [[0, 2], [2, 0], [3, 1], [1, 3 :: real]]}"
    using sort_returns_fronts [of "[[0, 2], [2, 0], [3, 1], [1, 3]]" 2] by blast
  moreover have "non_dominated_sort [[0, 2], [2, 0], [3, 1], [1, 3]] = Some [[0, 1], [3, 2]]"
    by code_simp
  ultimately show ?thesis by blast
qed

lemma fl_neg_antitone: "fl_neg x \<le> fl_neg y \<longleftrightarrow> y \<le> x"
  by (cases x; cases y) simp_all

text \<open>
  The output of \<^verbatim>\<open>nsga_order\<close> is sorted by ascending rank and, inside a rank, by
  descending crowding distance (infinity first); entries with equal rank and equal distance
  keep the order they have in the list that the fronts give.
\<close>

theorem final_order_is_sorted:
  assumes "nsga_order objs pens = Some order"
  shows "sorted (map (\<lambda>t. (snd (snd t), fst (snd t))) order)
     \<and> (\<forall>i j. i < j \<and> j < length order \<and> snd (snd (order ! i)) = snd (snd (order ! j))
            \<longrightarrow> fl_neg (fst (snd (order ! j))) \<le> fl_neg (fst (snd (order ! i))))
     \<and> (\<exists>fronts. nsga_order_fronts objs pens = Some fronts
          \<and> (\<forall>key. filter (\<lambda>t. (snd (snd t), fst (snd t)) = key) order
                   = filter (\<lambda>t. (snd (snd t), fst (snd t)) = key) (order_loop objs 1 fronts)))"
proof -
  obtain fronts where fr: "nsga_order_fronts objs pens = Some fronts"
    using assms by (cases "nsga_order_fronts objs pens") (simp_all add: nsga_order_def)
  let ?key = "\<lambda>t :: nat \<times> pyfloat \<times> nat. (snd (snd t), fst (snd t))"
  have o: "order = sort_key ?key (order_loop objs 1 fronts)"
    using assms fr by (simp add: nsga_order_def)
  have s: "sorted (map ?key order)" unfolding o by (rule sorted_sort_key)
  have st: "\<forall>key. filter (\<lambda>t. ?key t = key) order = filter (\<lambda>t. ?key t = key) (order_loop objs 1 fronts)"
    unfolding o by (simp add: sort_key_stable)
  have d: "fl_neg (fst (snd (order ! j))) \<le> fl_neg (fst (snd (order ! i)))"
    if "i < j" "j < length order" "snd (snd (order ! i)) = snd (snd (order ! j))" for i j
  proof -
    have "map ?key order ! i \<le> map ?key order ! j"
      using s that(1,2) by (intro sorted_nth_mono) simp_all
    then have "?key (order ! i) \<le> ?key (order ! j)" using that(1,2) by simp
    then have "fst (snd (order ! i)) \<le> fst (snd (order ! j))"
      using that(3) by (simp add: less_eq_prod_def)
    then show ?thesis by (simp add: fl_neg_antitone)
  qed
  show ?thesis using s st d fr by blast
qed

theorem final_order_is_sorted_witness:
  "nsga_order [[0, 2], [2, 0], [3, 1], [1, 3]] [0, 0, 0, 0]
     = Some [(0, NegInf, 1), (1, NegInf, 1), (3, NegInf, 2), (2, NegInf, 2)]
   \<and> sorted (map (\<lambda>t. (snd (snd t), fst (snd t)))
        [(0 :: nat, NegInf, 1 :: nat), (1, NegInf, 1), (3, NegInf, 2), (2, NegInf, 2)])"
proof -
  have run: "nsga_order [[0, 2], [2, 0], [3, 1], [1, 3]] [0, 0, 0, 0]
     = Some [(0, NegInf, 1), (1, NegInf, 1), (3, NegInf, 2), (2, NegInf, 2)]"
    by code_simp
  show ?thesis using final_order_is_sorted [OF run] run by blast
qed

text \<open>
  An empty list of candidates gives an empty ranking, not an error.
\<close>

theorem empty_batch_gives_empty_ranking:
  "nsga_order [] [] = Some [] \<and> rank_endpoint [] weights = Some (Inr [])"
proof -
  have a: "nsga_order [] [] = Some []"
    by (simp add: nsga_order_def nsga_order_fronts_def)
  have "apply_weights [] weights = []" by (simp add: apply_weights_def zip_star_def)
  then have "rank_endpoint [] weights = Some (Inr [])"
    by (simp add: rank_endpoint_def fleet_mileages_def a)
  then show ?thesis using a by simp
qed

text \<open>
  The objective mapper returns six objectives, none negative; the fitness objective is 0
  or 1 and is 1 exactly when the fitness alert is set; the penalty is 10 with the alert and 0
  without it.
\<close>

theorem objective_vector_shape:
  assumes "map_row_to_objectives r avg = Inr (objs, ex, pen, al)"
  shows "length objs = 6 \<and> (\<forall>x\<in>set objs. 0 \<le> x)
     \<and> (objs ! 0 = 0 \<or> objs ! 0 = 1) \<and> (fitness_invalid al \<longleftrightarrow> objs ! 0 = 1)
     \<and> pen = (if fitness_invalid al then 10 else 0)"
proof -
  obtain mil where m: "float_or_zero (mileage r) = Inr mil"
    using assms by (cases "float_or_zero (mileage r)") (simp_all add: map_row_to_objectives_def Let_def)
  have eq: "Inr (objs, ex, pen, al) = map_row_to_objectives r avg" using assms by simp
  have o: "objs = fst (projr (map_row_to_objectives r avg))"
    and a: "al = snd (snd (snd (projr (map_row_to_objectives r avg))))"
    and p: "pen = fst (snd (snd (projr (map_row_to_objectives r avg))))"
    unfolding eq [symmetric] by simp_all
  show ?thesis unfolding o a p by (simp add: map_row_to_objectives_def Let_def m)
qed

theorem objective_vector_shape_witness:
  "map_row_to_objectives (good_row\<lparr>fitness := Some ''expired''\<rparr>) 121000 =
     Inr ([1, 0, 0, 0, 0, 0],
          \<lparr>e_fitness = ''Expired'', e_job_card_status = ''Closed'', e_branding_priority = ''Low'',
            e_mileage = 121000, e_cleaning_status = ''Complete'', e_stabling_position = ''bay2'',
            e_updated_at = Some ''2025-09-19T13:57:53Z''\<rparr>,
          10,
          \<lparr>fitness_invalid = True, job_open = False, cleaning_pending = False,
            cleaning_partial = False, no_stabling = False\<rparr>)
   \<and> length [1, 0, 0, 0, 0, 0 :: real] = 6 \<and> (10 :: real) = (if True then 10 else 0)"
proof -
  have run: "map_row_to_objectives (good_row\<lparr>fitness := Some ''expired''\<rparr>) 121000 =
     Inr ([1, 0, 0, 0, 0, 0],
          \<lparr>e_fitness = ''Expired'', e_job_card_status = ''Closed'', e_branding_priority = ''Low'',
            e_mileage = 121000, e_cleaning_status = ''Complete'', e_stabling_position = ''bay2'',
            e_updated_at = Some ''2025-09-19T13:57:53Z''\<rparr>,
          10,
          \<lparr>fitness_invalid = True, job_open = False, cleaning_pending = False,
            cleaning_partial = False, no_stabling = False\<rparr>)"
    by code_simp
  show ?thesis using objective_vector_shape [OF run] run by simp
qed

text \<open>
  \<^verbatim>\<open>_norm\<close> keeps the length of a column and maps it into the interval from 0 to 1.
\<close>

theorem normalised_values_in_unit_interval:
  "length (norm_vals vals) = length vals \<and> (\<forall>x\<in>set (norm_vals vals). 0 \<le> x \<and> x \<le> 1)"
proof (cases "vals = []")
  case True
  then show ?thesis by (simp add: norm_vals_def)
next
  case False
  let ?lo = "Min (set vals)" and ?hi = "Max (set vals)"
  have b: "\<And>v. v \<in> set vals \<Longrightarrow> ?lo \<le> v \<and> v \<le> ?hi" by simp
  show ?thesis
  proof (cases "?hi - ?lo = 0")
    case True
    then show ?thesis using False by (simp add: norm_vals_def Let_def)
  next
    case ne: False
    have "?lo \<le> ?hi" using False b by (meson last_in_set order_trans)
    then have pos: "0 < ?hi - ?lo" using ne by simp
    have "0 \<le> (v - ?lo) / (?hi - ?lo) \<and> (v - ?lo) / (?hi - ?lo) \<le> 1" if "v \<in> set vals" for v
      using b [OF that] pos by (simp add: divide_le_eq)
    then show ?thesis using False ne by (auto simp: norm_vals_def Let_def)
  qed
qed

theorem normalised_values_in_unit_interval_witness:
  "norm_vals [2, 4, 3] = [0, 1, 1 / 2] \<and> list_all (\<lambda>x. 0 \<le> x \<and> x \<le> 1) (norm_vals [2, 4, 3])"
proof -
  have "\<forall>x\<in>set (norm_vals [2, 4, 3]). 0 \<le> x \<and> x \<le> 1"
    using normalised_values_in_unit_interval [of "[2, 4, 3]"] by blast
  then have "list_all (\<lambda>x. 0 \<le> x \<and> x \<le> 1) (norm_vals [2, 4, 3])" by (simp only: list_all_iff)
  moreover have "norm_vals [2, 4, 3] = [0, 1, 1 / 2]" by code_simp
  ultimately show ?thesis by blast
qed

text \<open>
  \<^verbatim>\<open>read_csv\<close> refuses a file without the identifier column: a row without
  \<open>train_id\<close> raises the error that names the column, and so does a file whose rows all lack
  it. When a row is read, its identifier and its mileage are those of the columns: nothing is
  replaced by a default.
\<close>

theorem read_csv_requires_columns:
  "(r ''train_id'' = None \<longrightarrow> read_row py_int py_float r = Inl (MissingColumn ''train_id''))
   \<and> (rows \<noteq> [] \<and> (\<forall>x\<in>set rows. x ''train_id'' = None)
        \<longrightarrow> read_csv py_int py_float rows = Inl (MissingColumn ''train_id''))
   \<and> (read_row py_int py_float r = Inr t
        \<longrightarrow> (\<exists>tid s. r ''train_id'' = Some tid \<and> ti_train_id t = strip (py_str tid)
               \<and> r ''mileage_km'' = Some (Some s) \<and> py_float s = Some (ti_mileage_km t)))"
proof (intro conjI impI)
  show a: "read_row py_int py_float r = Inl (MissingColumn ''train_id'')" if "r ''train_id'' = None" for r
    using that by (simp add: read_row_def column_def then_sum_def)
  show "read_csv py_int py_float rows = Inl (MissingColumn ''train_id'')"
    if h: "rows \<noteq> [] \<and> (\<forall>x\<in>set rows. x ''train_id'' = None)"
  proof -
    obtain x xs where rows: "rows = x # xs" using h by (cases rows) auto
    then have "read_row py_int py_float x = Inl (MissingColumn ''train_id'')" using h a by simp
    then show ?thesis by (simp add: read_csv_def rows)
  qed
  show "\<exists>tid s. r ''train_id'' = Some tid \<and> ti_train_id t = strip (py_str tid)
               \<and> r ''mileage_km'' = Some (Some s) \<and> py_float s = Some (ti_mileage_km t)"
    if "read_row py_int py_float r = Inr t"
    using that unfolding read_row_def then_sum_Inr column_Inr number_Inr by force
qed

theorem read_csv_requires_columns_witness:
  "(Map.empty :: csv_row) ''train_id'' = None
   \<and> read_row (\<lambda>s. None) (\<lambda>s. None) Map.empty = Inl (MissingColumn ''train_id'')
   \<and> [Map.empty :: csv_row] \<noteq> []
   \<and> read_csv (\<lambda>s. None) (\<lambda>s. None) [Map.empty] = Inl (MissingColumn ''train_id'')"
proof -
  note t = read_csv_requires_columns [of Map.empty "\<lambda>s. None" "\<lambda>s. None" "[Map.empty]"]
  have a: "read_row (\<lambda>s. None) (\<lambda>s. None) Map.empty = Inl (MissingColumn ''train_id'')"
    using t by simp
  have b: "read_csv (\<lambda>s. None) (\<lambda>s. None) [Map.empty] = Inl (MissingColumn ''train_id'')"
    using t by simp
  show ?thesis using a b by simp
qed

end
